theory Spec2Isabelle
  imports Complex_Main "HOL-Library.Finite_Map"
begin

section \<open>Rank-LP codec\<close>

text \<open>
  The codec of the scout module: \<^verbatim>\<open>TIERS\<close>, \<^verbatim>\<open>DIVISIONS\<close>, \<^verbatim>\<open>toTotalLP\<close>,
  \<^verbatim>\<open>fromTotalLP\<close> and \<^verbatim>\<open>getTierDivisionsInRange\<close>. League points are integers.
  A JavaScript value that may be \<^verbatim>\<open>null\<close> or \<^verbatim>\<open>undefined\<close> is an \<open>option\<close>.
\<close>

definition TIERS :: "string list" where
  "TIERS = [''IRON'', ''BRONZE'', ''SILVER'', ''GOLD'', ''PLATINUM'', ''EMERALD'', ''DIAMOND'']"

definition DIVISIONS :: "string list" where
  "DIVISIONS = [''IV'', ''III'', ''II'', ''I'']"

text \<open>\<^verbatim>\<open>Array.prototype.indexOf\<close>: the first position of the element, \<open>None\<close> for \<^verbatim>\<open>-1\<close>.\<close>

fun indexOf :: "'a list \<Rightarrow> 'a \<Rightarrow> nat option" where
  "indexOf [] x = None"
| "indexOf (y # ys) x = (if x = y then Some 0 else map_option Suc (indexOf ys x))"

text \<open>\<^verbatim>\<open>String.prototype.toUpperCase\<close> on the ASCII letters (rank names are ASCII).\<close>

definition upperChar :: "char \<Rightarrow> char" where
  "upperChar c =
     (case map_of (zip ''abcdefghijklmnopqrstuvwxyz'' ''ABCDEFGHIJKLMNOPQRSTUVWXYZ'') c of
        None \<Rightarrow> c
      | Some u \<Rightarrow> u)"

definition toUpperCase :: "string \<Rightarrow> string" where
  "toUpperCase str = map upperChar str"

definition toTotalLP :: "string \<Rightarrow> string \<Rightarrow> int \<Rightarrow> int option" where
  "toTotalLP tier division lp =
     (case indexOf TIERS (toUpperCase tier) of
        None \<Rightarrow> None
      | Some tierIndex \<Rightarrow>
          (case indexOf DIVISIONS (toUpperCase division) of
             None \<Rightarrow> None
           | Some divIndex \<Rightarrow> Some (int tierIndex * 400 + int divIndex * 100 + lp)))"

text \<open>Reading an array element: \<^verbatim>\<open>undefined\<close> outside the array.\<close>

definition at_index :: "'a list \<Rightarrow> int \<Rightarrow> 'a option" where
  "at_index xs i = (if 0 \<le> i \<and> i < int (length xs) then Some (xs ! nat i) else None)"

record rank =
  r_tier :: "string option"
  r_division :: "string option"
  r_lp :: int

definition fromTotalLP :: "int \<Rightarrow> rank" where
  "fromTotalLP totalLP =
     (if totalLP < 0 then \<lparr>r_tier = Some ''IRON'', r_division = Some ''IV'', r_lp = 0\<rparr>
      else if totalLP \<ge> int (length TIERS) * 400 then
        \<lparr>r_tier = Some ''MASTER'', r_division = Some ''I'',
         r_lp = totalLP - int (length TIERS) * 400\<rparr>
      else
        (let tierIndex = totalLP div 400;
             remainder = totalLP mod 400;
             divIndex = remainder div 100;
             lp = remainder mod 100
         in \<lparr>r_tier = at_index TIERS tierIndex,
             r_division = at_index DIVISIONS divIndex,
             r_lp = lp\<rparr>))"

definition getTierDivisionsInRange :: "int \<Rightarrow> int \<Rightarrow> (string \<times> string) list" where
  "getTierDivisionsInRange minLP maxLP =
     concat (map (\<lambda>tierIdx.
       concat (map (\<lambda>divIdx.
         (let tierStart = int tierIdx * 400 + int divIdx * 100;
              tierEnd = tierStart + 99
          in if tierEnd \<ge> minLP \<and> tierStart \<le> maxLP
             then [(TIERS ! tierIdx, DIVISIONS ! divIdx)] else []))
         [0..<length DIVISIONS]))
       [0..<length TIERS])"

section \<open>Freshness cache\<close>

text \<open>
  A discovered player as \<^verbatim>\<open>scoutPlayers\<close> assembles it. \<^verbatim>\<open>totalLP\<close> is what
  \<^verbatim>\<open>toTotalLP\<close> returned (possibly \<^verbatim>\<open>null\<close>); \<^verbatim>\<open>fromMatch\<close> is absent unless the
  player came from a teammate expansion. The source keeps \<^verbatim>\<open>winRate\<close> as the
  percentage rendered with one decimal and a percent sign; the model keeps the
  percentage itself. Wins and losses are counts. A cache record is a player plus
  the time it was cached.
\<close>

record player =
  p_name :: string
  p_region :: string
  p_queue :: string
  p_rank :: string
  p_lp :: int
  p_totalLP :: "int option"
  p_wins :: nat
  p_losses :: nat
  p_winRate :: rat
  p_lastActiveMinutes :: int
  p_lastGameMode :: string
  p_hotStreak :: bool
  p_veteran :: bool
  p_freshBlood :: bool
  p_puuid :: string
  p_fromCache :: bool
  p_fromMatch :: "bool option"
  p_updatedAt :: int

record cached_player = player +
  cachedAt :: int

type_synonym cache = "(string, cached_player) fmap"

definition CACHE_MAX_AGE :: int where
  "CACHE_MAX_AGE = 60 * 60 * 1000"

text \<open>\<^verbatim>\<open>Date.now()\<close> is the parameter \<open>now\<close>, in milliseconds.\<close>

definition getCachedPlayer :: "cache \<Rightarrow> int \<Rightarrow> string \<Rightarrow> cached_player option" where
  "getCachedPlayer playerCache now puuid =
     (case fmlookup playerCache puuid of
        None \<Rightarrow> None
      | Some cached \<Rightarrow>
          (let age = now - cachedAt cached
           in if age > CACHE_MAX_AGE then None else Some cached))"

text \<open>
  Numbers of the source that the model reads exactly: the quotient
  \<^verbatim>\<open>wins / (wins + losses)\<close> of two counts is a rational, or \<^verbatim>\<open>NaN\<close> (\<open>None\<close>)
  for \<^verbatim>\<open>0/0\<close>; every comparison with \<^verbatim>\<open>NaN\<close> is
  false; \<^verbatim>\<open>null\<close> compares as \<^verbatim>\<open>0\<close>.
\<close>

definition winsOverGames :: "nat \<Rightarrow> nat \<Rightarrow> rat option" where
  "winsOverGames wins losses =
     (if wins + losses = 0 then None else Some (of_nat wins / of_nat (wins + losses)))"

definition js_less :: "rat option \<Rightarrow> rat \<Rightarrow> bool" where
  "js_less x y = (case x of None \<Rightarrow> False | Some v \<Rightarrow> v < y)"

definition null_as_zero :: "int option \<Rightarrow> int" where
  "null_as_zero x = (case x of None \<Rightarrow> 0 | Some v \<Rightarrow> v)"

record criteria =
  activeWithinMinutes :: int
  minWinRate :: rat
  minLP :: "int option"
  maxLP :: "int option"

definition cachedPlayerMeetsCriteria :: "int \<Rightarrow> cached_player \<Rightarrow> criteria \<Rightarrow> bool" where
  "cachedPlayerMeetsCriteria now cached options =
     (let cachedAge = now - cachedAt cached;
          adjustedActiveMinutes = p_lastActiveMinutes cached + cachedAge div 60000
      in if adjustedActiveMinutes > activeWithinMinutes options then False
         else
           (let winRate = winsOverGames (p_wins cached) (p_losses cached)
            in if js_less winRate (minWinRate options) then False
               else if minLP options \<noteq> None \<and> maxLP options \<noteq> None \<and>
                       (null_as_zero (p_totalLP cached) < the (minLP options) \<or>
                        null_as_zero (p_totalLP cached) > the (maxLP options)) then False
               else True))"

text \<open>The win rate of a ladder entry, as the search engine computes it.\<close>

definition entryWinRate :: "nat \<Rightarrow> nat \<Rightarrow> rat" where
  "entryWinRate wins losses =
     (let totalGames = wins + losses
      in if totalGames > 0 then of_nat wins / of_nat totalGames else 0)"

section \<open>Upstream API, observers and the state of the process\<close>

text \<open>
  Response bodies are typed: a body is \<^verbatim>\<open>null\<close>, an array of ladder entries, an array
  of match identifiers, a match, a summoner or an account, with the fields the engine
  reads; a field that may be missing is an \<open>option\<close>.

  What the engine cannot decide itself is in the environment, indexed by call: the
  \<open>k\<close>-th \<^verbatim>\<open>fetch\<close> is answered by \<open>upstream env k\<close> (\<open>None\<close> when \<^verbatim>\<open>fetch\<close> itself
  rejects) after \<open>latency env k\<close> milliseconds, the \<open>k\<close>-th call of
  \<^verbatim>\<open>global.isSearchAborted\<close> answers \<open>f k\<close>, and the \<open>k\<close>-th
  \<^verbatim>\<open>Math.floor(Math.random() * n)\<close> is the index \<open>mathRandom env k mod n\<close>. Each of the
  three globals \<^verbatim>\<open>isSearchAborted\<close>, \<^verbatim>\<open>sendRateLimit\<close> and \<^verbatim>\<open>sendPlayerFound\<close>
  may be absent.

  The state of the process is the clock in milliseconds, the limiter's
  \<^verbatim>\<open>lastRequest\<close>, the cache in memory and its copy on disk, the three call counters
  and a trace of what the process did. The clock advances in \<^verbatim>\<open>sleep\<close> and during a
  \<^verbatim>\<open>fetch\<close> only. Writing the cache file succeeds (\<^verbatim>\<open>saveCache\<close> logs a failure and
  goes on). Of the console output the trace keeps the configuration error alone.
\<close>

datatype url =
    LeagueExpUrl string string string nat
  | SummonerByPuuidUrl string
  | LeagueBySummonerUrl string
  | AccountByPuuidUrl string
  | MatchIdsUrl string nat "nat option"
  | MatchUrl string

record league_entry =
  e_queueType :: string
  e_tier :: string
  e_rank :: string
  e_leaguePoints :: int
  e_wins :: nat
  e_losses :: nat
  e_puuid :: "string option"
  e_hotStreak :: bool
  e_veteran :: bool
  e_freshBlood :: bool

record participant =
  pt_puuid :: "string option"

record match_dto =
  m_matchId :: "string option"
  m_gameEndTimestamp :: int
  m_gameMode :: string
  m_queueId :: nat
  m_participants :: "participant list"

record summoner =
  s_id :: "string option"

record account =
  a_gameName :: string
  a_tagLine :: string

datatype body =
    BNull
  | BEntries "league_entry list"
  | BIds "string list"
  | BMatch match_dto
  | BSummoner summoner
  | BAccount account

datatype response = Response (status: nat) (json: body)

definition ok :: "response \<Rightarrow> bool" where
  "ok response = (200 \<le> status response \<and> status response \<le> 299)"

datatype error = ApiKeyInvalid | SearchAborted | ApiError nat url | NetworkError | TypeError

datatype event =
    Fetch url
  | Sleep int
  | RateLimit bool nat
  | AbortPoll bool
  | PlayerFound player
  | SaveCache
  | ConsoleError string

record env =
  upstream :: "nat \<Rightarrow> url \<Rightarrow> response option"
  latency :: "nat \<Rightarrow> nat"
  mathRandom :: "nat \<Rightarrow> nat"
  isSearchAborted :: "(nat \<Rightarrow> bool) option"
  sendRateLimit :: bool
  sendPlayerFound :: bool

record state =
  clock :: int
  lastRequest :: int
  playerCache :: cache
  disk :: cache
  fetches :: nat
  polls :: nat
  randoms :: nat
  trace :: "event list"

definition sleep :: "int \<Rightarrow> state \<Rightarrow> state" where
  "sleep ms s = s\<lparr>clock := clock s + ms, trace := trace s @ [Sleep ms]\<rparr>"

definition minDelay :: int where
  "minDelay = 1000 div 10"

definition wait :: "state \<Rightarrow> state" where
  "wait s =
     (let now = clock s;
          elapsed = now - lastRequest s;
          s1 = (if elapsed < minDelay then sleep (minDelay - elapsed) s else s)
      in s1\<lparr>lastRequest := clock s1\<rparr>)"

definition randomIndex :: "env \<Rightarrow> nat \<Rightarrow> state \<Rightarrow> nat \<times> state" where
  "randomIndex env n s = (mathRandom env (randoms s) mod n, s\<lparr>randoms := Suc (randoms s)\<rparr>)"

fun shuffleFrom :: "env \<Rightarrow> nat \<Rightarrow> 'a list \<Rightarrow> state \<Rightarrow> 'a list \<times> state" where
  "shuffleFrom env 0 shuffled s = (shuffled, s)"
| "shuffleFrom env (Suc n) shuffled s =
     (let i = Suc n;
          (j, s1) = randomIndex env (i + 1) s
      in shuffleFrom env n (shuffled[i := shuffled ! j, j := shuffled ! i]) s1)"

definition shuffleArray :: "env \<Rightarrow> 'a list \<Rightarrow> state \<Rightarrow> 'a list \<times> state" where
  "shuffleArray env array s = shuffleFrom env (length array - 1) array s"

definition isAborted :: "env \<Rightarrow> state \<Rightarrow> bool \<times> state" where
  "isAborted env s =
     (case isSearchAborted env of
        None \<Rightarrow> (False, s)
      | Some f \<Rightarrow>
          (f (polls s),
           s\<lparr>polls := Suc (polls s), trace := trace s @ [AbortPoll (f (polls s))]\<rparr>))"

definition notifyRateLimit :: "env \<Rightarrow> bool \<Rightarrow> nat \<Rightarrow> state \<Rightarrow> state" where
  "notifyRateLimit env limited seconds s =
     (if sendRateLimit env then s\<lparr>trace := trace s @ [RateLimit limited seconds]\<rparr> else s)"

definition notifyPlayerFound :: "env \<Rightarrow> player \<Rightarrow> state \<Rightarrow> state" where
  "notifyPlayerFound env player s =
     (if sendPlayerFound env then s\<lparr>trace := trace s @ [PlayerFound player]\<rparr> else s)"

definition saveCache :: "state \<Rightarrow> state" where
  "saveCache s = s\<lparr>disk := playerCache s, trace := trace s @ [SaveCache]\<rparr>"

text \<open>
  \<^verbatim>\<open>loadCache\<close> runs once, when the module is loaded and the cache is still empty: the
  content of the cache file becomes the cache as it is, no record of it is checked. A
  missing or unreadable file leaves the empty cache; it is the empty \<open>disk\<close> here.
\<close>

definition loadCache :: "state \<Rightarrow> state" where
  "loadCache s = s\<lparr>playerCache := disk s\<rparr>"

definition cachePlayer :: "player \<Rightarrow> state \<Rightarrow> state" where
  "cachePlayer player s =
     (let s1 = s\<lparr>playerCache :=
                  fmupd (p_puuid player)
                    (player.extend player (cached_player.fields (clock s))) (playerCache s)\<rparr>
      in if card (fmdom' (playerCache s1)) mod 10 = 0 then saveCache s1 else s1)"

section \<open>Rate-limited request gate\<close>

definition waitTime :: int where "waitTime = 120000"
definition checkInterval :: int where "checkInterval = 1000"

function coolDown :: "env \<Rightarrow> int \<Rightarrow> state \<Rightarrow> (error + unit) \<times> state" where
  "coolDown env waited s =
     (if waited < waitTime then
        (let (aborted, s1) = isAborted env s
         in if aborted then (Inl SearchAborted, s1)
            else coolDown env (waited + checkInterval) (sleep checkInterval s1))
      else (Inr (), s))"
  by pat_completeness auto
termination
  by (relation "measure (\<lambda>(env, waited, s). nat (waitTime - waited))")
     (auto simp: waitTime_def checkInterval_def)

declare coolDown.simps [simp del]

partial_function (option) apiRequest ::
  "env \<Rightarrow> url \<Rightarrow> state \<Rightarrow> ((error + body) \<times> state) option" where
  "apiRequest env url s =
     (let s1 = wait s;
          k = fetches s1;
          s2 = s1\<lparr>clock := clock s1 + int (latency env k), fetches := Suc k,
                  trace := trace s1 @ [Fetch url]\<rparr>
      in case upstream env k url of
           None \<Rightarrow> Some (Inl NetworkError, s2)
         | Some response \<Rightarrow>
             if \<not> ok response then
               if status response = 403 then Some (Inl ApiKeyInvalid, s2)
               else if status response = 429 then
                 (case coolDown env 0 (notifyRateLimit env True 120 s2) of
                    (Inl e, s3) \<Rightarrow> Some (Inl e, s3)
                  | (Inr u, s3) \<Rightarrow> apiRequest env url (notifyRateLimit env False 0 s3))
               else Some (Inl (ApiError (status response) url), s2)
             else Some (Inr (json response), s2))"

declare apiRequest.simps [code]

subsection \<open>The legacy copy of the gate\<close>

text \<open>
  \<^verbatim>\<open>scout.js\<close> holds an older copy of \<^verbatim>\<open>apiRequest\<close>. Its limiter is set to 20 requests
  per second, and its cool-down is a single \<^verbatim>\<open>sleep(120000)\<close>: the abort predicate is
  not polled.
\<close>

definition minDelay_legacy :: int where
  "minDelay_legacy = 1000 div 20"

definition wait_legacy :: "state \<Rightarrow> state" where
  "wait_legacy s =
     (let now = clock s;
          elapsed = now - lastRequest s;
          s1 = (if elapsed < minDelay_legacy then sleep (minDelay_legacy - elapsed) s else s)
      in s1\<lparr>lastRequest := clock s1\<rparr>)"

partial_function (option) apiRequest_legacy ::
  "env \<Rightarrow> url \<Rightarrow> state \<Rightarrow> ((error + body) \<times> state) option" where
  "apiRequest_legacy env url s =
     (let s1 = wait_legacy s;
          k = fetches s1;
          s2 = s1\<lparr>clock := clock s1 + int (latency env k), fetches := Suc k,
                  trace := trace s1 @ [Fetch url]\<rparr>
      in case upstream env k url of
           None \<Rightarrow> Some (Inl NetworkError, s2)
         | Some response \<Rightarrow>
             if \<not> ok response then
               if status response = 403 then Some (Inl ApiKeyInvalid, s2)
               else if status response = 429 then
                 apiRequest_legacy env url
                   (notifyRateLimit env False 0 (sleep 120000 (notifyRateLimit env True 120 s2)))
               else Some (Inl (ApiError (status response) url), s2)
             else Some (Inr (json response), s2))"

declare apiRequest_legacy.simps [code]

definition getLeagueEntries ::
  "env \<Rightarrow> string \<Rightarrow> string \<Rightarrow> string \<Rightarrow> nat \<Rightarrow> state \<Rightarrow> ((error + body) \<times> state) option" where
  "getLeagueEntries env queue tier division page = apiRequest env (LeagueExpUrl queue tier division page)"

definition getSummonerByPuuid :: "env \<Rightarrow> string \<Rightarrow> state \<Rightarrow> ((error + body) \<times> state) option" where
  "getSummonerByPuuid env puuid = apiRequest env (SummonerByPuuidUrl puuid)"

definition getLeagueEntriesBySummonerId ::
  "env \<Rightarrow> string \<Rightarrow> state \<Rightarrow> ((error + body) \<times> state) option" where
  "getLeagueEntriesBySummonerId env summonerId = apiRequest env (LeagueBySummonerUrl summonerId)"

definition getRiotIdByPuuid :: "env \<Rightarrow> string \<Rightarrow> state \<Rightarrow> ((error + body) \<times> state) option" where
  "getRiotIdByPuuid env puuid = apiRequest env (AccountByPuuidUrl puuid)"

definition getMatchIds ::
  "env \<Rightarrow> string \<Rightarrow> nat \<Rightarrow> nat option \<Rightarrow> state \<Rightarrow> ((error + body) \<times> state) option" where
  "getMatchIds env puuid count queue = apiRequest env (MatchIdsUrl puuid count queue)"

definition getMatchDetails :: "env \<Rightarrow> string \<Rightarrow> state \<Rightarrow> ((error + body) \<times> state) option" where
  "getMatchDetails env matchId = apiRequest env (MatchUrl matchId)"

text \<open>
  A request inside \<^verbatim>\<open>try { ... } catch\<close> whose handler drops the error: the caller
  sees no body.
\<close>

definition caught :: "((error + body) \<times> state) option \<Rightarrow> (body option \<times> state) option" where
  "caught r =
     (case r of
        None \<Rightarrow> None
      | Some (Inl err, s) \<Rightarrow> Some (None, s)
      | Some (Inr b, s) \<Rightarrow> Some (Some b, s))"

record activity =
  minutesAgo :: int
  gameMode :: string
  queueId :: nat
  a_match :: match_dto

definition firstMatchId :: "body option \<Rightarrow> string option" where
  "firstMatchId b = (case b of Some (BIds (matchId # rest)) \<Rightarrow> Some matchId | _ \<Rightarrow> None)"

definition matchOf :: "body option \<Rightarrow> match_dto option" where
  "matchOf b = (case b of Some (BMatch m) \<Rightarrow> Some m | _ \<Rightarrow> None)"

definition getLastActiveMinutes ::
  "env \<Rightarrow> string \<Rightarrow> state \<Rightarrow> (activity option \<times> state) option" where
  "getLastActiveMinutes env puuid s =
     (case caught (getMatchIds env puuid 1 None s) of
        None \<Rightarrow> None
      | Some (matchIds, s1) \<Rightarrow>
          (case firstMatchId matchIds of
             None \<Rightarrow> Some (None, s1)
           | Some matchId \<Rightarrow>
               (case caught (getMatchDetails env matchId s1) of
                  None \<Rightarrow> None
                | Some (details, s2) \<Rightarrow>
                    (case matchOf details of
                       None \<Rightarrow> Some (None, s2)
                     | Some m \<Rightarrow>
                         (let gameEndTime = m_gameEndTimestamp m;
                              now = clock s2
                          in Some (Some \<lparr>minutesAgo = (now - gameEndTime) div 60000,
                                          gameMode = m_gameMode m,
                                          queueId = m_queueId m,
                                          a_match = m\<rparr>, s2))))))"

section \<open>Exploration search engine\<close>

record search =
  results :: "player list"
  seenPuuids :: "string set"
  processedMatchIds :: "string set"

record combination =
  c_queue :: string
  c_tier :: string
  c_division :: string
  triedPages :: "nat set"
  maxPageReached :: bool
  currentMaxPage :: nat

datatype flow = Continue | Break

fun forEach :: "('a \<Rightarrow> 'st \<Rightarrow> (flow \<times> 'st) option) \<Rightarrow> 'a list \<Rightarrow> 'st \<Rightarrow> 'st option" where
  "forEach step [] st = Some st"
| "forEach step (x # xs) st =
     (case step x st of
        None \<Rightarrow> None
      | Some (Break, st') \<Rightarrow> Some st'
      | Some (Continue, st') \<Rightarrow> forEach step xs st')"

definition truthy :: "string option \<Rightarrow> bool" where
  "truthy x = (case x of None \<Rightarrow> False | Some str \<Rightarrow> str \<noteq> [])"

definition queueShortName :: "string \<Rightarrow> string" where
  "queueShortName queue = (if queue = ''RANKED_SOLO_5x5'' then ''Solo/Duo'' else ''Flex'')"

definition resolveName :: "env \<Rightarrow> string \<Rightarrow> state \<Rightarrow> (string \<times> state) option" where
  "resolveName env puuid s =
     (case caught (getRiotIdByPuuid env puuid s) of
        None \<Rightarrow> None
      | Some (b, s1) \<Rightarrow>
          Some ((case b of
                   Some (BAccount account) \<Rightarrow> a_gameName account @ ''#'' @ a_tagLine account
                 | _ \<Rightarrow> ''Unknown''), s1))"

definition acceptCached :: "env \<Rightarrow> string \<Rightarrow> cached_player \<Rightarrow> search \<times> state \<Rightarrow> search \<times> state" where
  "acceptCached env puuid cached st =
     (case st of (sr, s) \<Rightarrow>
        (let sr1 = sr\<lparr>seenPuuids := insert puuid (seenPuuids sr)\<rparr>;
             cachedAge = clock s - cachedAt cached;
             adjustedActiveMinutes = p_lastActiveMinutes cached + cachedAge div 60000;
             player = (player.truncate cached)
                        \<lparr>p_lastActiveMinutes := adjustedActiveMinutes,
                         p_fromCache := True,
                         p_updatedAt := cachedAt cached\<rparr>
         in (sr1\<lparr>results := results sr1 @ [player]\<rparr>, notifyPlayerFound env player s)))"

definition usableCached :: "criteria \<Rightarrow> string \<Rightarrow> state \<Rightarrow> cached_player option" where
  "usableCached cacheOptions puuid s =
     (case getCachedPlayer (playerCache s) (clock s) puuid of
        None \<Rightarrow> None
      | Some cached \<Rightarrow>
          if cachedPlayerMeetsCriteria (clock s) cached cacheOptions then Some cached else None)"

definition leagueEntryStep ::
  "env \<Rightarrow> rat \<Rightarrow> criteria \<Rightarrow> activity \<Rightarrow> string \<Rightarrow> league_entry \<Rightarrow> search \<times> state
     \<Rightarrow> (flow \<times> search \<times> state) option" where
  "leagueEntryStep env maxPlayers cacheOptions activity participantPuuid leagueEntry st =
     (case st of (sr, s) \<Rightarrow>
        if of_nat (length (results sr)) \<ge> maxPlayers then Some (Break, sr, s)
        else if e_queueType leagueEntry \<noteq> ''RANKED_SOLO_5x5'' \<and>
                e_queueType leagueEntry \<noteq> ''RANKED_FLEX_SR'' then Some (Continue, sr, s)
        else
          (let participantTotalLP =
                 toTotalLP (e_tier leagueEntry) (e_rank leagueEntry) (e_leaguePoints leagueEntry)
           in if minLP cacheOptions \<noteq> None \<and> maxLP cacheOptions \<noteq> None \<and>
                 (participantTotalLP = None \<or>
                  the participantTotalLP < the (minLP cacheOptions) \<or>
                  the participantTotalLP > the (maxLP cacheOptions)) then Some (Continue, sr, s)
              else
                (let participantWinRate = entryWinRate (e_wins leagueEntry) (e_losses leagueEntry)
                 in if participantWinRate < minWinRate cacheOptions then Some (Continue, sr, s)
                    else
                      (let sr1 = sr\<lparr>seenPuuids := insert participantPuuid (seenPuuids sr)\<rparr>
                       in case resolveName env participantPuuid s of
                            None \<Rightarrow> None
                          | Some (participantName, s1) \<Rightarrow>
                              (let matchParticipant =
                                     \<lparr>p_name = participantName,
                                      p_region = ''na1'',
                                      p_queue = queueShortName (e_queueType leagueEntry),
                                      p_rank = e_tier leagueEntry @ '' '' @ e_rank leagueEntry,
                                      p_lp = e_leaguePoints leagueEntry,
                                      p_totalLP = participantTotalLP,
                                      p_wins = e_wins leagueEntry,
                                      p_losses = e_losses leagueEntry,
                                      p_winRate = participantWinRate * 100,
                                      p_lastActiveMinutes = minutesAgo activity,
                                      p_lastGameMode = gameMode activity,
                                      p_hotStreak = e_hotStreak leagueEntry,
                                      p_veteran = e_veteran leagueEntry,
                                      p_freshBlood = e_freshBlood leagueEntry,
                                      p_puuid = participantPuuid,
                                      p_fromCache = False,
                                      p_fromMatch = Some True,
                                      p_updatedAt = clock s1\<rparr>;
                                   s2 = cachePlayer matchParticipant s1;
                                   sr2 = sr1\<lparr>results := results sr1 @ [matchParticipant]\<rparr>
                               in Some (Break, sr2, notifyPlayerFound env matchParticipant s2))))))"

definition summonerId :: "body option \<Rightarrow> string option" where
  "summonerId b =
     (case b of
        Some (BSummoner summoner) \<Rightarrow> (if truthy (s_id summoner) then s_id summoner else None)
      | _ \<Rightarrow> None)"

definition entriesOf :: "body option \<Rightarrow> league_entry list" where
  "entriesOf b = (case b of Some (BEntries leagueEntries) \<Rightarrow> leagueEntries | _ \<Rightarrow> [])"

definition participantStep ::
  "env \<Rightarrow> rat \<Rightarrow> criteria \<Rightarrow> activity \<Rightarrow> string \<Rightarrow> participant \<Rightarrow> search \<times> state
     \<Rightarrow> (flow \<times> search \<times> state) option" where
  "participantStep env maxPlayers cacheOptions activity puuid participant st =
     (case st of (sr, s) \<Rightarrow>
        if of_nat (length (results sr)) \<ge> maxPlayers then Some (Break, sr, s)
        else
          (case isAborted env s of (aborted, s0) \<Rightarrow>
             if aborted then Some (Break, sr, s0)
             else if \<not> truthy (pt_puuid participant) \<or> the (pt_puuid participant) = puuid \<or>
                     the (pt_puuid participant) \<in> seenPuuids sr then Some (Continue, sr, s0)
             else
               (let participantPuuid = the (pt_puuid participant)
                in case usableCached cacheOptions participantPuuid s0 of
                     Some cachedParticipant \<Rightarrow>
                       Some (Continue, acceptCached env participantPuuid cachedParticipant (sr, s0))
                   | None \<Rightarrow>
                       (case caught (getSummonerByPuuid env participantPuuid s0) of
                          None \<Rightarrow> None
                        | Some (summoner, s1) \<Rightarrow>
                            (case summonerId summoner of
                               None \<Rightarrow> Some (Continue, sr, s1)
                             | Some sid \<Rightarrow>
                                 (case caught (getLeagueEntriesBySummonerId env sid s1) of
                                    None \<Rightarrow> None
                                  | Some (leagueEntries, s2) \<Rightarrow>
                                      (case forEach
                                              (leagueEntryStep env maxPlayers cacheOptions activity
                                                 participantPuuid)
                                              (entriesOf leagueEntries) (sr, s2) of
                                         None \<Rightarrow> None
                                       | Some st' \<Rightarrow> Some (Continue, st'))))))))"

definition entryStep ::
  "env \<Rightarrow> rat \<Rightarrow> criteria \<Rightarrow> combination \<Rightarrow> league_entry \<Rightarrow> search \<times> state
     \<Rightarrow> (flow \<times> search \<times> state) option" where
  "entryStep env maxPlayers cacheOptions combo entry st =
     (case st of (sr, s) \<Rightarrow>
        if of_nat (length (results sr)) \<ge> maxPlayers then Some (Break, sr, s)
        else
          (case isAborted env s of (aborted, s0) \<Rightarrow>
             if aborted then Some (Break, sr, s0)
             else if minLP cacheOptions \<noteq> None \<and> maxLP cacheOptions \<noteq> None \<and>
                     (let playerTotalLP =
                            null_as_zero (toTotalLP (c_tier combo) (c_division combo)
                                            (e_leaguePoints entry))
                      in playerTotalLP < the (minLP cacheOptions) \<or>
                         playerTotalLP > the (maxLP cacheOptions)) then Some (Continue, sr, s0)
             else
               (let winRate = entryWinRate (e_wins entry) (e_losses entry)
                in if winRate < minWinRate cacheOptions then Some (Continue, sr, s0)
                   else if \<not> truthy (e_puuid entry) then Some (Continue, sr, s0)
                   else if the (e_puuid entry) \<in> seenPuuids sr then Some (Continue, sr, s0)
                   else
                     (let puuid = the (e_puuid entry)
                      in case usableCached cacheOptions puuid s0 of
                           Some cached \<Rightarrow> Some (Continue, acceptCached env puuid cached (sr, s0))
                         | None \<Rightarrow>
                             (case getLastActiveMinutes env puuid s0 of
                                None \<Rightarrow> None
                              | Some (found, s1) \<Rightarrow>
                                  if found \<noteq> None \<and>
                                     minutesAgo (the found) \<le> activeWithinMinutes cacheOptions
                                  then
                                    (let activity = the found;
                                         sr1 = sr\<lparr>seenPuuids := insert puuid (seenPuuids sr)\<rparr>
                                     in case resolveName env puuid s1 of
                                          None \<Rightarrow> None
                                        | Some (displayName, s2) \<Rightarrow>
                                            (let player =
                                                   \<lparr>p_name = displayName,
                                                    p_region = ''na1'',
                                                    p_queue = queueShortName (c_queue combo),
                                                    p_rank = c_tier combo @ '' '' @ c_division combo,
                                                    p_lp = e_leaguePoints entry,
                                                    p_totalLP = toTotalLP (c_tier combo) (c_division combo)
                                                                  (e_leaguePoints entry),
                                                    p_wins = e_wins entry,
                                                    p_losses = e_losses entry,
                                                    p_winRate = winRate * 100,
                                                    p_lastActiveMinutes = minutesAgo activity,
                                                    p_lastGameMode = gameMode activity,
                                                    p_hotStreak = e_hotStreak entry,
                                                    p_veteran = e_veteran entry,
                                                    p_freshBlood = e_freshBlood entry,
                                                    p_puuid = puuid,
                                                    p_fromCache = False,
                                                    p_fromMatch = None,
                                                    p_updatedAt = clock s2\<rparr>;
                                                 s3 = cachePlayer player s2;
                                                 sr2 = sr1\<lparr>results := results sr1 @ [player]\<rparr>;
                                                 s4 = notifyPlayerFound env player s3;
                                                 matchId = m_matchId (a_match activity)
                                             in if truthy matchId \<and>
                                                   the matchId \<notin> processedMatchIds sr2 \<and>
                                                   of_nat (length (results sr2)) < maxPlayers
                                                then
                                                  (let sr3 = sr2\<lparr>processedMatchIds :=
                                                                   insert (the matchId) (processedMatchIds sr2)\<rparr>
                                                   in case forEach
                                                             (participantStep env maxPlayers cacheOptions
                                                                activity puuid)
                                                             (m_participants (a_match activity)) (sr3, s4) of
                                                        None \<Rightarrow> None
                                                      | Some st' \<Rightarrow> Some (Continue, st'))
                                                else Some (Continue, sr2, s4)))
                                  else Some (Continue, sr, s1))))))"

text \<open>
  The body of a ladder page as the main loop reads it: \<^verbatim>\<open>null\<close> and the empty array
  are an empty page; a body that is no array of entries cannot be iterated.
\<close>

definition pageEntries :: "body \<Rightarrow> error + league_entry list" where
  "pageEntries b =
     (case b of
        BNull \<Rightarrow> Inr []
      | BEntries entries \<Rightarrow> Inr entries
      | _ \<Rightarrow> Inl TypeError)"

definition untriedPagesOf :: "combination \<Rightarrow> nat list" where
  "untriedPagesOf combo = filter (\<lambda>p. p \<notin> triedPages combo) [1..<Suc (currentMaxPage combo)]"

definition activeIndices :: "combination list \<Rightarrow> nat list" where
  "activeIndices combos = filter (\<lambda>i. \<not> maxPageReached (combos ! i)) [0..<length combos]"

text \<open>An empty page lowers the page bound of its combination and may exhaust it.\<close>

definition afterEmptyPage :: "combination \<Rightarrow> nat \<Rightarrow> combination" where
  "afterEmptyPage combo page =
     (let combo2 = combo\<lparr>currentMaxPage := min (currentMaxPage combo) (page - 1)\<rparr>
      in if currentMaxPage combo2 < 1 \<or> card (triedPages combo2) \<ge> currentMaxPage combo2
         then combo2\<lparr>maxPageReached := True\<rparr>
         else combo2)"

definition mainStep ::
  "env \<Rightarrow> rat \<Rightarrow> criteria \<Rightarrow> combination list \<Rightarrow> search \<Rightarrow> state
     \<Rightarrow> ((error + flow \<times> combination list \<times> search) \<times> state) option" where
  "mainStep env maxPlayers cacheOptions shuffledCombinations sr s =
     (if \<not> of_nat (length (results sr)) < maxPlayers then Some (Inr (Break, shuffledCombinations, sr), s)
      else
        (case isAborted env s of (aborted, s0) \<Rightarrow>
           if aborted then Some (Inr (Break, shuffledCombinations, sr), s0)
           else
             (let activeCombinations = activeIndices shuffledCombinations
              in if length activeCombinations = 0
                 then Some (Inr (Break, shuffledCombinations, sr), s0)
                 else
                   (case randomIndex env (length activeCombinations) s0 of (r, s1) \<Rightarrow>
                      (let idx = activeCombinations ! r;
                           combo = shuffledCombinations ! idx;
                           untriedPages = untriedPagesOf combo
                       in if length untriedPages = 0
                          then Some (Inr (Continue,
                                 shuffledCombinations[idx := combo\<lparr>maxPageReached := True\<rparr>], sr), s1)
                          else
                            (case randomIndex env (length untriedPages) s1 of (r2, s2) \<Rightarrow>
                               (let page = untriedPages ! r2;
                                    combo1 = combo\<lparr>triedPages := insert page (triedPages combo)\<rparr>
                                in case getLeagueEntries env (c_queue combo1) (c_tier combo1)
                                          (c_division combo1) page s2 of
                                     None \<Rightarrow> None
                                   | Some (Inl err, s3) \<Rightarrow> Some (Inl err, s3)
                                   | Some (Inr b, s3) \<Rightarrow>
                                       (case pageEntries b of
                                          Inl err \<Rightarrow> Some (Inl err, s3)
                                        | Inr entries \<Rightarrow>
                                            if length entries = 0 then
                                              Some (Inr (Continue,
                                                shuffledCombinations[idx := afterEmptyPage combo1 page],
                                                sr), s3)
                                            else
                                              (case shuffleArray env entries s3 of
                                                 (shuffledEntries, s4) \<Rightarrow>
                                                   (case forEach
                                                           (entryStep env maxPlayers cacheOptions combo1)
                                                           shuffledEntries (sr, s4) of
                                                      None \<Rightarrow> None
                                                    | Some (sr', s5) \<Rightarrow>
                                                        Some (Inr (Continue,
                                                          shuffledCombinations[idx := combo1], sr'),
                                                          s5)))))))))))"

text \<open>
  What is left to explore: an active combination counts one plus its untried pages
  up to its current page bound.
\<close>

definition comboWork :: "combination \<Rightarrow> nat" where
  "comboWork combo =
     (if maxPageReached combo then 0
      else Suc (card ({1..currentMaxPage combo} - triedPages combo)))"

definition remainingWork :: "combination list \<Rightarrow> nat" where
  "remainingWork combos = sum_list (map comboWork combos)"

subsection \<open>The main loop and its termination\<close>

lemma sum_list_map_update_less:
  assumes "i < length xs" and "f y < (f (xs ! i) :: nat)"
  shows "sum_list (map f (xs[i := y])) < sum_list (map f xs)"
  using assms
proof (induction xs arbitrary: i)
  case Nil
  then show ?case by simp
next
  case (Cons x xs)
  show ?case
  proof (cases i)
    case 0
    with Cons.prems show ?thesis by simp
  next
    case (Suc j)
    with Cons.prems have "j < length xs" "f y < f (xs ! j)" by simp_all
    from Cons.IH[OF this] Suc show ?thesis by simp
  qed
qed

lemma randomIndex_less: "0 < n \<Longrightarrow> randomIndex env n s = (r, s') \<Longrightarrow> r < n"
  by (auto simp: randomIndex_def)

lemma activeIndices_nth:
  assumes "r < length (activeIndices combos)"
  shows "activeIndices combos ! r < length combos \<and>
         \<not> maxPageReached (combos ! (activeIndices combos ! r))"
proof -
  have "activeIndices combos ! r \<in> set (activeIndices combos)" using assms by (rule nth_mem)
  then show ?thesis unfolding activeIndices_def by simp
qed

lemma mem_untriedPagesOf:
  "x \<in> set (untriedPagesOf combo) \<longleftrightarrow>
     1 \<le> x \<and> x \<le> currentMaxPage combo \<and> x \<notin> triedPages combo"
  unfolding untriedPagesOf_def set_filter set_upt by (simp add: less_Suc_eq_le conj_commute del: upt_Suc) blast

lemma untriedPagesOf_nth:
  assumes "r < length (untriedPagesOf combo)"
  shows "untriedPagesOf combo ! r \<in> {1..currentMaxPage combo} - triedPages combo"
proof -
  have "untriedPagesOf combo ! r \<in> set (untriedPagesOf combo)" using assms by (rule nth_mem)
  then show ?thesis unfolding mem_untriedPagesOf by simp
qed

lemma comboWork_exhausted:
  "\<not> maxPageReached combo \<Longrightarrow> comboWork (combo\<lparr>maxPageReached := True\<rparr>) < comboWork combo"
  by (simp add: comboWork_def)

lemma card_Diff_insert_less:
  assumes "finite A" and "page \<in> A - T" and "B \<subseteq> A"
  shows "card (B - insert page T) < card (A - T)"
proof -
  have "B - insert page T \<subseteq> A - T" using assms(3) by blast
  moreover have "page \<in> A - T" "page \<notin> B - insert page T" using assms(2) by simp_all
  ultimately have "B - insert page T \<subset> A - T" by blast
  then show ?thesis using assms(1) by (intro psubset_card_mono) simp_all
qed

lemma comboWork_tried:
  assumes "\<not> maxPageReached combo" and "page \<in> {1..currentMaxPage combo} - triedPages combo"
  shows "comboWork (combo\<lparr>triedPages := insert page (triedPages combo)\<rparr>) < comboWork combo"
  using assms(1) card_Diff_insert_less[OF _ assms(2) subset_refl]
  by (simp add: comboWork_def)

lemma comboWork_empty_page:
  assumes "\<not> maxPageReached combo" and "page \<in> {1..currentMaxPage combo} - triedPages combo"
  shows "comboWork (combo\<lparr>triedPages := insert page (triedPages combo),
                          currentMaxPage := min (currentMaxPage combo) (page - 1)\<rparr>) < comboWork combo"
proof -
  have "{1..min (currentMaxPage combo) (page - 1)} \<subseteq> {1..currentMaxPage combo}" by simp
  from card_Diff_insert_less[OF _ assms(2) this] assms(1)
  show ?thesis by (simp add: comboWork_def)
qed

lemma mainStep_decreases:
  assumes "mainStep env maxPlayers cacheOptions combos sr s = Some (Inr (Continue, combos', sr'), s')"
  shows "remainingWork combos' < remainingWork combos"
proof -
  obtain aborted s0 where ab: "isAborted env s = (aborted, s0)" by (cases "isAborted env s")
  let ?act = "activeIndices combos"
  obtain r s1 where r: "randomIndex env (length ?act) s0 = (r, s1)"
    by (cases "randomIndex env (length ?act) s0")
  let ?idx = "?act ! r"
  let ?combo = "combos ! ?idx"
  let ?unt = "untriedPagesOf ?combo"
  obtain r2 s2 where r2: "randomIndex env (length ?unt) s1 = (r2, s2)"
    by (cases "randomIndex env (length ?unt) s1")
  let ?page = "?unt ! r2"
  let ?combo1 = "?combo\<lparr>triedPages := insert ?page (triedPages ?combo)\<rparr>"
  have more: "of_nat (length (results sr)) < maxPlayers" "\<not> aborted"
    using assms by (auto simp: mainStep_def ab split: if_splits)
  have act: "?act \<noteq> []"
    using assms more by (auto simp: mainStep_def ab Let_def split: if_splits)
  then have "r < length ?act" using randomIndex_less[OF _ r] by simp
  from activeIndices_nth[OF this] have idx: "?idx < length combos" "\<not> maxPageReached ?combo"
    by simp_all
  have upd: "comboWork c' < comboWork ?combo \<Longrightarrow> remainingWork (combos[?idx := c']) < remainingWork combos" for c'
    unfolding remainingWork_def by (rule sum_list_map_update_less[OF idx(1)])
  show ?thesis
  proof (cases "?unt = []")
    case True
    with assms act more have "combos' = combos[?idx := ?combo\<lparr>maxPageReached := True\<rparr>]"
      by (simp add: mainStep_def ab r Let_def)
    then show ?thesis using upd comboWork_exhausted[OF idx(2)] by simp
  next
    case False
    then have "r2 < length ?unt" using randomIndex_less[OF _ r2] by simp
    from untriedPagesOf_nth[OF this] have pg: "?page \<in> {1..currentMaxPage ?combo} - triedPages ?combo" .
    note base = mainStep_def ab r r2 Let_def
    show ?thesis
    proof (cases "getLeagueEntries env (c_queue ?combo1) (c_tier ?combo1) (c_division ?combo1) ?page s2")
      case None
      with assms act more False show ?thesis by (simp add: base)
    next
      case (Some a)
      obtain res s3 where a: "a = (res, s3)" by (cases a)
      show ?thesis
      proof (cases res)
        case (Inl err)
        with assms act more False Some a show ?thesis by (simp add: base)
      next
        case (Inr b)
        show ?thesis
        proof (cases "pageEntries b")
          case (Inl err)
          with assms act more False Some a Inr show ?thesis by (simp add: base)
        next
          case entries: (Inr entries)
          show ?thesis
          proof (cases "entries = []")
            case True
            have c': "combos' = combos[?idx := afterEmptyPage ?combo1 ?page]"
              using assms act more False Some a Inr entries True by (simp add: base)
            have "comboWork (afterEmptyPage ?combo1 ?page) < comboWork ?combo"
              using comboWork_empty_page[OF idx(2) pg] idx(2)
              by (simp add: afterEmptyPage_def Let_def comboWork_def)
            then show ?thesis unfolding c' by (rule upd)
          next
            case ne: False
            obtain shuffledEntries s4 where sh: "shuffleArray env entries s3 = (shuffledEntries, s4)"
              by (cases "shuffleArray env entries s3")
            show ?thesis
            proof (cases "forEach (entryStep env maxPlayers cacheOptions ?combo1) shuffledEntries (sr, s4)")
              case None
              with assms act more False Some a Inr entries ne sh show ?thesis by (simp add: base)
            next
              case fe: (Some st')
              obtain sr5 s5 where st': "st' = (sr5, s5)" by (cases st')
              have "combos' = combos[?idx := ?combo1]"
                using assms act more False Some a Inr entries ne sh fe st' by (simp add: base)
              then show ?thesis using upd comboWork_tried[OF idx(2) pg] by simp
            qed
          qed
        qed
      qed
    qed
  qed
qed

function mainLoop ::
  "env \<Rightarrow> rat \<Rightarrow> criteria \<Rightarrow> combination list \<Rightarrow> search \<Rightarrow> state
     \<Rightarrow> ((error + search) \<times> state) option" where
  "mainLoop env maxPlayers cacheOptions shuffledCombinations sr s =
     (case mainStep env maxPlayers cacheOptions shuffledCombinations sr s of
        None \<Rightarrow> None
      | Some (Inl err, s') \<Rightarrow> Some (Inl err, s')
      | Some (Inr (Break, combos', sr'), s') \<Rightarrow> Some (Inr sr', s')
      | Some (Inr (Continue, combos', sr'), s') \<Rightarrow>
          mainLoop env maxPlayers cacheOptions combos' sr' s')"
  by pat_completeness auto
termination
  by (relation "measure (\<lambda>(env, maxPlayers, cacheOptions, combos, sr, s). remainingWork combos)")
     (auto dest: mainStep_decreases)

declare mainLoop.simps [simp del]

text \<open>
  The LP range string: \<^verbatim>\<open>/^(\d+)-(\d+)$/\<close>, then \<^verbatim>\<open>parseInt\<close> of both groups.
\<close>

definition isDigit :: "char \<Rightarrow> bool" where
  "isDigit c = (c \<in> set ''0123456789'')"

definition parseInt :: "string \<Rightarrow> int" where
  "parseInt digits = foldl (\<lambda>acc c. 10 * acc + (of_char c - 48)) 0 digits"

definition matchLpRange :: "string \<Rightarrow> (string \<times> string) option" where
  "matchLpRange lpRange =
     (let first = takeWhile isDigit lpRange;
          rest = dropWhile isDigit lpRange
      in case rest of
           [] \<Rightarrow> None
         | c # second \<Rightarrow>
             if first \<noteq> [] \<and> c = CHR ''-'' \<and> second \<noteq> [] \<and> list_all isDigit second
             then Some (first, second) else None)"

text \<open>
  The options of a search, after the defaults of \<^verbatim>\<open>scoutPlayers\<close> have been filled in.
  \<^verbatim>\<open>maxPlayers\<close> is whatever number the caller passes, a negative or a fractional one
  included: the server and the command line pass \<^verbatim>\<open>parseInt(..) || default\<close>, which
  lets \<^verbatim>\<open>-1\<close> through.
\<close>

record options =
  o_queue :: "string option"
  o_tier :: string
  o_division :: string
  o_lpRange :: "string option"
  o_maxPlayers :: rat
  o_activeWithinMinutes :: int
  o_minWinRate :: rat

definition newCombination :: "string \<Rightarrow> string \<times> string \<Rightarrow> combination" where
  "newCombination q td =
     \<lparr>c_queue = q, c_tier = fst td, c_division = snd td,
      triedPages = {}, maxPageReached = False, currentMaxPage = 50\<rparr>"

text \<open>
  The first part of \<^verbatim>\<open>scoutPlayers\<close>: the queues, the parsed LP range (\<^verbatim>\<open>minLP\<close>,
  \<^verbatim>\<open>maxLP\<close>; absent without an \<^verbatim>\<open>lpRange\<close>), the tier/division pairs and the
  combinations built from them.
\<close>

definition queuesToSearch :: "options \<Rightarrow> string list" where
  "queuesToSearch options =
     (if truthy (o_queue options) then [the (o_queue options)]
      else [''RANKED_SOLO_5x5'', ''RANKED_FLEX_SR''])"

definition invalidLpRange :: "options \<Rightarrow> bool" where
  "invalidLpRange options =
     (truthy (o_lpRange options) \<and> matchLpRange (the (o_lpRange options)) = None)"

definition lpBounds :: "options \<Rightarrow> (int \<times> int) option" where
  "lpBounds options =
     (if truthy (o_lpRange options)
      then (case matchLpRange (the (o_lpRange options)) of
              None \<Rightarrow> None
            | Some m \<Rightarrow> Some (parseInt (fst m), parseInt (snd m)))
      else None)"

definition tierDivisionsToSearch :: "options \<Rightarrow> (string \<times> string) list" where
  "tierDivisionsToSearch options =
     (case lpBounds options of
        Some (lo, hi) \<Rightarrow> getTierDivisionsInRange lo hi
      | None \<Rightarrow> [(toUpperCase (o_tier options), toUpperCase (o_division options))])"

definition searchCombinations :: "options \<Rightarrow> combination list" where
  "searchCombinations options =
     concat (map (\<lambda>q. map (newCombination q) (tierDivisionsToSearch options))
               (queuesToSearch options))"

definition cacheOptionsOf :: "options \<Rightarrow> criteria" where
  "cacheOptionsOf options =
     \<lparr>activeWithinMinutes = o_activeWithinMinutes options,
      minWinRate = o_minWinRate options,
      minLP = map_option fst (lpBounds options),
      maxLP = map_option snd (lpBounds options)\<rparr>"

text \<open>
  The search itself. A range string that does not parse is reported with
  \<^verbatim>\<open>console.error\<close> (the trace keeps the head of the message) and answered with
  \<^verbatim>\<open>return []\<close>. An error thrown in the main loop leaves \<^verbatim>\<open>scoutPlayers\<close> at
  once; otherwise the cache is saved and the results are returned. \<open>None\<close> is a
  search that never returns.
\<close>

definition scoutPlayers ::
  "env\<Rightarrow> options \<Rightarrow> state \<Rightarrow> ((error + player list) \<times> state) option" where
  "scoutPlayers env options s =
     (if invalidLpRange options
      then Some (Inr [], s\<lparr>trace := trace s @ [ConsoleError ''Invalid lpRange format'']\<rparr>)
      else
        (case shuffleArray env (searchCombinations options) s of
           (shuffledCombinations, s1) \<Rightarrow>
             (case mainLoop env (o_maxPlayers options) (cacheOptionsOf options) shuffledCombinations
                     \<lparr>results = [], seenPuuids = {}, processedMatchIds = {}\<rparr> s1 of
                None \<Rightarrow> None
              | Some (Inl err, s2) \<Rightarrow> Some (Inl err, s2)
              | Some (Inr sr, s2) \<Rightarrow> Some (Inr (results sr), saveCache s2))))"

section \<open>Sample data\<close>

text \<open>A cache record and search criteria used to instantiate the theorems below.\<close>

definition sample_cached :: "nat \<Rightarrow> nat \<Rightarrow> int \<Rightarrow> cached_player" where
  "sample_cached w l t =
     \<lparr>p_name = ''Ahri#NA1'', p_region = ''na1'', p_queue = ''Solo/Duo'', p_rank = ''SILVER IV'',
      p_lp = 50, p_totalLP = Some 850, p_wins = w, p_losses = l, p_winRate = 50,
      p_lastActiveMinutes = 10, p_lastGameMode = ''CLASSIC'', p_hotStreak = False,
      p_veteran = False, p_freshBlood = False, p_puuid = ''puuid-a'', p_fromCache = False,
      p_fromMatch = None, p_updatedAt = t, cachedAt = t\<rparr>"

definition sample_criteria :: "int \<Rightarrow> criteria" where
  "sample_criteria active =
     \<lparr>activeWithinMinutes = active, minWinRate = 1 / 2, minLP = Some 800, maxLP = Some 1000\<rparr>"

definition entryA :: league_entry where
  "entryA = \<lparr>e_queueType = ''RANKED_SOLO_5x5'', e_tier = ''GOLD'', e_rank = ''II'',
     e_leaguePoints = 40, e_wins = 6, e_losses = 4, e_puuid = Some ''puuid-a'',
     e_hotStreak = False, e_veteran = False, e_freshBlood = True\<rparr>"

definition entryB :: league_entry where
  "entryB = \<lparr>e_queueType = ''RANKED_SOLO_5x5'', e_tier = ''GOLD'', e_rank = ''III'',
     e_leaguePoints = 10, e_wins = 3, e_losses = 3, e_puuid = Some ''puuid-b'',
     e_hotStreak = True, e_veteran = False, e_freshBlood = False\<rparr>"

definition matchM1 :: match_dto where
  "matchM1 = \<lparr>m_matchId = Some ''NA1_1'', m_gameEndTimestamp = 0, m_gameMode = ''CLASSIC'',
     m_queueId = 420, m_participants = [\<lparr>pt_puuid = Some ''puuid-a''\<rparr>, \<lparr>pt_puuid = Some ''puuid-b''\<rparr>]\<rparr>"

definition demo_upstream :: "nat \<Rightarrow> url \<Rightarrow> response option" where
  "demo_upstream k u =
     (case u of
        LeagueExpUrl q t d page \<Rightarrow>
          Some (Response 200 (if page = 1 then BEntries [entryA] else BEntries []))
      | SummonerByPuuidUrl p \<Rightarrow> Some (Response 200 (BSummoner \<lparr>s_id = Some ''sid-b''\<rparr>))
      | LeagueBySummonerUrl sid \<Rightarrow> Some (Response 200 (BEntries [entryB]))
      | AccountByPuuidUrl p \<Rightarrow> Some (Response 200 (BAccount \<lparr>a_gameName = ''Ahri'', a_tagLine = ''NA1''\<rparr>))
      | MatchIdsUrl p c q \<Rightarrow> Some (Response 200 (BIds [''NA1_1'']))
      | MatchUrl m \<Rightarrow> Some (Response 200 (BMatch matchM1)))"

definition demo_env :: env where
  "demo_env = \<lparr>upstream = demo_upstream, latency = (\<lambda>k. 20), mathRandom = (\<lambda>k. 0),
     isSearchAborted = Some (\<lambda>k. False), sendRateLimit = True, sendPlayerFound = True\<rparr>"

definition state0 :: state where
  "state0 = \<lparr>clock = 1000, lastRequest = 0, playerCache = fmempty, disk = fmempty,
     fetches = 0, polls = 0, randoms = 0, trace = []\<rparr>"

definition demo_options :: options where
  "demo_options = \<lparr>o_queue = Some ''RANKED_SOLO_5x5'', o_tier = ''GOLD'', o_division = ''II'',
     o_lpRange = None, o_maxPlayers = 3, o_activeWithinMinutes = 30, o_minWinRate = 0\<rparr>"

section \<open>Vocabulary of the statements\<close>

text \<open>The request gate: polls that never abort, and the events of a cool-down.\<close>

definition neverAborted :: "env \<Rightarrow> nat \<Rightarrow> nat \<Rightarrow> bool" where
  "neverAborted env p n =
     (case isSearchAborted env of None \<Rightarrow> True | Some f \<Rightarrow> (\<forall>i<n. \<not> f (p + i)))"

definition pollEvents :: "env \<Rightarrow> event list" where
  "pollEvents env = (case isSearchAborted env of None \<Rightarrow> [] | Some f \<Rightarrow> [AbortPoll False])"

definition pollCount :: "env \<Rightarrow> nat \<Rightarrow> nat" where
  "pollCount env n = (case isSearchAborted env of None \<Rightarrow> 0 | Some f \<Rightarrow> n)"

definition rateLimitEvents :: "env \<Rightarrow> bool \<Rightarrow> nat \<Rightarrow> event list" where
  "rateLimitEvents env limited seconds =
     (if sendRateLimit env then [RateLimit limited seconds] else [])"

definition coolDownEvents :: "env \<Rightarrow> nat \<Rightarrow> event list" where
  "coolDownEvents env n = concat (replicate n (pollEvents env @ [Sleep checkInterval]))"

definition env429 :: env where
  "env429 = \<lparr>upstream = (\<lambda>k u. Some (if k = 0 then Response 429 BNull
                                        else Response 200 (BIds [''NA1_1'']))),
     latency = (\<lambda>k. 20), mathRandom = (\<lambda>k. 0),
     isSearchAborted = Some (\<lambda>k. False), sendRateLimit = True, sendPlayerFound = True\<rparr>"

definition env429_aborting :: env where
  "env429_aborting = env429\<lparr>isSearchAborted := Some (\<lambda>k. True)\<rparr>"

text \<open>The same upstream with an abort predicate that turns true at the third poll.\<close>

definition env429_abort_late :: env where
  "env429_abort_late = env429\<lparr>isSearchAborted := Some (\<lambda>k. 2 \<le> k)\<rparr>"

text \<open>
  No request is answered with HTTP 429 forever: from every attempt on, some later attempt
  at the same URL gets another answer.
\<close>

definition is429 :: "response option \<Rightarrow> bool" where
  "is429 r = (case r of None \<Rightarrow> False | Some response \<Rightarrow> status response = 429)"

definition overloadEnds :: "env \<Rightarrow> bool" where
  "overloadEnds env = (\<forall>k url. \<exists>j. \<not> is429 (upstream env (k + j) url))"

text \<open>Every request for a ladder page is answered with a success carrying a page.\<close>

definition ladderAnswers :: "env \<Rightarrow> bool" where
  "ladderAnswers env =
     (\<forall>k queue tier division page. \<exists>response.
        upstream env k (LeagueExpUrl queue tier division page) = Some response \<and>
        ok response \<and> (\<exists>entries. pageEntries (json response) = Inr entries))"

definition env_overloaded :: env where
  "env_overloaded = \<lparr>upstream = (\<lambda>k u. Some (Response 429 BNull)),
     latency = (\<lambda>k. 20), mathRandom = (\<lambda>k. 0),
     isSearchAborted = None, sendRateLimit = True, sendPlayerFound = True\<rparr>"

text \<open>
  Every record of the cache is stored under its own player identifier. The empty cache
  has this property and \<^verbatim>\<open>cachePlayer\<close> keeps it; \<^verbatim>\<open>loadCache\<close> installs the content
  of the cache file, which has the property when the file was written by \<^verbatim>\<open>saveCache\<close>
  from such a cache and has not been edited since.
\<close>

definition cache_wf :: "cache \<Rightarrow> bool" where
  "cache_wf c = (\<forall>k cached. fmlookup c k = Some cached \<longrightarrow> p_puuid cached = k)"

text \<open>
  The invariant of a search: no two results share a player identifier, every result's
  identifier has been marked as seen, and the results are none or fewer than
  \<open>maxPlayers + 1\<close> (a result is only added while there are fewer than \<open>maxPlayers\<close>).
\<close>

definition searchInv :: "rat \<Rightarrow> search \<times> state \<Rightarrow> bool" where
  "searchInv maxPlayers st =
     (case st of (sr, s) \<Rightarrow>
        distinct (map p_puuid (results sr)) \<and>
        p_puuid ` set (results sr) \<subseteq> seenPuuids sr \<and>
        (results sr = [] \<or> of_nat (length (results sr)) < maxPlayers + 1) \<and>
        cache_wf (playerCache s))"

text \<open>
  A cache file that holds one player's record under the identifiers of two other
  players, a ladder page listing those two, and a search for two players.
\<close>

definition miskeyed_record :: cached_player where
  "miskeyed_record = (sample_cached 5 5 0)\<lparr>p_puuid := ''puuid-x''\<rparr>"

definition miskeyed_cache :: cache where
  "miskeyed_cache = fmupd ''puuid-a'' miskeyed_record (fmupd ''puuid-b'' miskeyed_record fmempty)"

definition env_ladder_pair :: env where
  "env_ladder_pair =
     \<lparr>upstream = (\<lambda>k u. Some (Response 200
         (case u of
            LeagueExpUrl q t d page \<Rightarrow> if page = 1 then BEntries [entryA, entryB] else BEntries []
          | _ \<Rightarrow> BNull))),
      latency = (\<lambda>k. 20), mathRandom = (\<lambda>k. 0),
      isSearchAborted = None, sendRateLimit = False, sendPlayerFound = False\<rparr>"

definition pair_options :: options where
  "pair_options = demo_options\<lparr>o_maxPlayers := 2\<rparr>"

definition miskeyed_player :: player where
  "miskeyed_player = (player.truncate miskeyed_record)
     \<lparr>p_lastActiveMinutes := 10, p_fromCache := True, p_updatedAt := 0\<rparr>"

text \<open>The number of durable saves so far, and a run of upserts.\<close>

definition saveCount :: "state \<Rightarrow> nat" where
  "saveCount s = length (filter (\<lambda>e. e = SaveCache) (trace s))"

definition cachePlayers :: "player list \<Rightarrow> state \<Rightarrow> state" where
  "cachePlayers players s = foldl (\<lambda>s player. cachePlayer player s) s players"

definition keyCount :: "state \<Rightarrow> nat" where
  "keyCount s = card (fmdom' (playerCache s))"

definition sample_player :: player where
  "sample_player = player.truncate (sample_cached 5 5 0)"

definition bad_options :: options where
  "bad_options = demo_options\<lparr>o_lpRange := Some ''gold''\<rparr>"

text \<open>
  An upstream whose first answer is HTTP 429, and an abort predicate that answers false
  at the first poll and true from the second poll on: the operator stops the search
  while it waits out the cool-down of its first ladder request.
\<close>

definition env_abort_in_cooldown :: env where
  "env_abort_in_cooldown =
     \<lparr>upstream = (\<lambda>k u. if k = 0 then Some (Response 429 BNull) else demo_upstream k u),
      latency = (\<lambda>k. 20), mathRandom = (\<lambda>k. 0),
      isSearchAborted = Some (\<lambda>k. 1 \<le> k), sendRateLimit = True, sendPlayerFound = True\<rparr>"

section \<open>Properties of the rank-LP codec\<close>

lemma length_TIERS: "length TIERS = 7"
  by (simp add: TIERS_def)

lemma length_DIVISIONS: "length DIVISIONS = 4"
  by (simp add: DIVISIONS_def)

lemma div400_bounds:
  assumes "0 \<le> (x::int)" "x < 2800"
  shows "0 \<le> x div 400" "x div 400 < 7"
proof -
  show "0 \<le> x div 400" using assms(1) by (simp add: pos_imp_zdiv_nonneg_iff)
  have "x div 400 \<le> 2799 div 400" by (rule zdiv_mono1) (use assms in simp_all)
  then show "x div 400 < 7" by simp
qed

lemma mod400_div100_bounds:
  shows "0 \<le> (x::int) mod 400 div 100" "x mod 400 div 100 < 4"
proof -
  have m: "0 \<le> x mod 400" "x mod 400 < 400" by simp_all
  show "0 \<le> x mod 400 div 100" using m(1) by (simp add: pos_imp_zdiv_nonneg_iff)
  have "x mod 400 \<le> 399" using m(2) by simp
  then have "x mod 400 div 100 \<le> 399 div 100" by (intro zdiv_mono1) simp_all
  then show "x mod 400 div 100 < 4" by simp
qed

lemma band_div:
  assumes "0 \<le> (r::int)" "r < b"
  shows "(q * b + r) div b = q" "(q * b + r) mod b = r"
proof -
  have e: "q * b + r = b * q + r" by simp
  show "(q * b + r) div b = q" by (rule int_div_pos_eq[OF e assms])
  show "(q * b + r) mod b = r" by (rule int_mod_pos_eq[OF e assms])
qed

lemma indexOf_TIERS_vals:
  "indexOf TIERS ''IRON'' = Some 0" "indexOf TIERS ''BRONZE'' = Some 1"
  "indexOf TIERS ''SILVER'' = Some 2" "indexOf TIERS ''GOLD'' = Some 3"
  "indexOf TIERS ''PLATINUM'' = Some 4" "indexOf TIERS ''EMERALD'' = Some 5"
  "indexOf TIERS ''DIAMOND'' = Some 6"
  by (simp_all add: TIERS_def)

lemma indexOf_DIVISIONS_vals:
  "indexOf DIVISIONS ''IV'' = Some 0" "indexOf DIVISIONS ''III'' = Some 1"
  "indexOf DIVISIONS ''II'' = Some 2" "indexOf DIVISIONS ''I'' = Some 3"
  by (simp_all add: DIVISIONS_def)

lemma toUpperCase_TIERS: "tier \<in> set TIERS \<Longrightarrow> toUpperCase tier = tier"
  by (auto simp: TIERS_def toUpperCase_def upperChar_def)

lemma toUpperCase_DIVISIONS: "division \<in> set DIVISIONS \<Longrightarrow> toUpperCase division = division"
  by (auto simp: DIVISIONS_def toUpperCase_def upperChar_def)

lemma fromTotalLP_band:
  assumes "ti < 7" "di < 4" "0 \<le> lp" "lp \<le> 99"
  shows "fromTotalLP (int ti * 400 + int di * 100 + lp) =
         \<lparr>r_tier = Some (TIERS ! ti), r_division = Some (DIVISIONS ! di), r_lp = lp\<rparr>"
proof -
  let ?t = "int ti * 400 + int di * 100 + lp"
  have r: "0 \<le> int di * 100 + lp" "int di * 100 + lp < 400" using assms by auto
  have d: "?t div 400 = int ti" using band_div(1)[OF r, of "int ti"] by (simp add: add.assoc)
  have m: "?t mod 400 = int di * 100 + lp" using band_div(2)[OF r, of "int ti"] by (simp add: add.assoc)
  have lp100: "lp < 100" using assms by simp
  have d2: "(int di * 100 + lp) div 100 = int di" by (rule band_div(1)[OF assms(3) lp100])
  have m2: "(int di * 100 + lp) mod 100 = lp" by (rule band_div(2)[OF assms(3) lp100])
  have lo: "\<not> ?t < 0" using assms by auto
  have hi: "\<not> ?t \<ge> int (length TIERS) * 400" using assms r by (simp add: length_TIERS)
  show ?thesis
    unfolding fromTotalLP_def using lo hi assms
    by (simp add: Let_def d m d2 m2 at_index_def length_TIERS length_DIVISIONS)
qed

text \<open>
  Claim C5. For every tier name of \<^verbatim>\<open>TIERS\<close> (the seven tiers below the apex), every
  division name of \<^verbatim>\<open>DIVISIONS\<close> and every points value from 0 to 99,
  \<^verbatim>\<open>toTotalLP\<close> succeeds and \<^verbatim>\<open>fromTotalLP\<close> of its result is the same tier,
  division and points.
\<close>

theorem toTotalLP_fromTotalLP_roundtrip:
  assumes "tier \<in> set TIERS" and "division \<in> set DIVISIONS" and "0 \<le> lp" and "lp \<le> 99"
  shows "\<exists>totalLP. toTotalLP tier division lp = Some totalLP \<and>
           fromTotalLP totalLP = \<lparr>r_tier = Some tier, r_division = Some division, r_lp = lp\<rparr>"
proof -
  obtain ti where ti: "ti < 7" "indexOf TIERS tier = Some ti" "TIERS ! ti = tier"
    using assms(1) by (auto simp: TIERS_def)
  obtain di where di: "di < 4" "indexOf DIVISIONS division = Some di" "DIVISIONS ! di = division"
    using assms(2) by (auto simp: DIVISIONS_def)
  have "toTotalLP tier division lp = Some (int ti * 400 + int di * 100 + lp)"
    by (simp add: toTotalLP_def toUpperCase_TIERS[OF assms(1)] toUpperCase_DIVISIONS[OF assms(2)] ti di)
  moreover note fromTotalLP_band[OF ti(1) di(1) assms(3,4)]
  ultimately show ?thesis by (simp add: ti di)
qed

theorem toTotalLP_fromTotalLP_roundtrip_witness: "''SILVER'' \<in> set TIERS \<and> ''IV'' \<in> set DIVISIONS \<and>
   toTotalLP ''SILVER'' ''IV'' 50 = Some 850 \<and>
   fromTotalLP 850 = \<lparr>r_tier = Some ''SILVER'', r_division = Some ''IV'', r_lp = 50\<rparr>"
proof -
  have a: "''SILVER'' \<in> set TIERS" by (simp add: TIERS_def)
  have b: "''IV'' \<in> set DIVISIONS" by (simp add: DIVISIONS_def)
  have v: "toTotalLP ''SILVER'' ''IV'' 50 = Some 850"
    by (simp add: toTotalLP_def toUpperCase_def upperChar_def TIERS_def DIVISIONS_def)
  from toTotalLP_fromTotalLP_roundtrip[OF a b, of 50] v a b show ?thesis by simp
qed

text \<open>
  Claim C6, as the code has it. Below zero \<^verbatim>\<open>fromTotalLP\<close> returns the lowest tier,
  the lowest division and 0 points; from 2800 (7 tiers of 400) on it returns the apex
  tier \<^verbatim>\<open>MASTER\<close> with points \<open>totalLP - 2800\<close> and the division \<^verbatim>\<open>I\<close>; in between
  the tier is the quotient by 400, the division the quotient of the remainder by 100,
  and the points the final remainder.
\<close>

theorem fromTotalLP_cases:
  "(totalLP < 0 \<longrightarrow>
      fromTotalLP totalLP = \<lparr>r_tier = Some ''IRON'', r_division = Some ''IV'', r_lp = 0\<rparr>) \<and>
   (2800 \<le> totalLP \<longrightarrow>
      fromTotalLP totalLP = \<lparr>r_tier = Some ''MASTER'', r_division = Some ''I'', r_lp = totalLP - 2800\<rparr>) \<and>
   (0 \<le> totalLP \<and> totalLP < 2800 \<longrightarrow>
      nat (totalLP div 400) < length TIERS \<and> nat (totalLP mod 400 div 100) < length DIVISIONS \<and>
      fromTotalLP totalLP =
        \<lparr>r_tier = Some (TIERS ! nat (totalLP div 400)),
         r_division = Some (DIVISIONS ! nat (totalLP mod 400 div 100)),
         r_lp = totalLP mod 400 mod 100\<rparr>)"
proof (intro conjI impI)
  show "fromTotalLP totalLP = \<lparr>r_tier = Some ''IRON'', r_division = Some ''IV'', r_lp = 0\<rparr>"
    if "totalLP < 0" using that by (simp add: fromTotalLP_def)
  show "fromTotalLP totalLP = \<lparr>r_tier = Some ''MASTER'', r_division = Some ''I'', r_lp = totalLP - 2800\<rparr>"
    if "2800 \<le> totalLP" using that by (simp add: fromTotalLP_def length_TIERS)
next
  assume a: "0 \<le> totalLP \<and> totalLP < 2800"
  then have t: "0 \<le> totalLP div 400" "totalLP div 400 < 7"
    using div400_bounds[of totalLP] by simp_all
  have d: "0 \<le> totalLP mod 400 div 100" "totalLP mod 400 div 100 < 4"
    by (rule mod400_div100_bounds)+
  show "nat (totalLP div 400) < length TIERS" using t by (simp add: length_TIERS)
  show "nat (totalLP mod 400 div 100) < length DIVISIONS" using d by (simp add: length_DIVISIONS)
  show "fromTotalLP totalLP =
        \<lparr>r_tier = Some (TIERS ! nat (totalLP div 400)),
         r_division = Some (DIVISIONS ! nat (totalLP mod 400 div 100)),
         r_lp = totalLP mod 400 mod 100\<rparr>"
    using a t d by (simp add: fromTotalLP_def Let_def at_index_def length_TIERS length_DIVISIONS)
qed

theorem fromTotalLP_cases_witness: "fromTotalLP (-5) = \<lparr>r_tier = Some ''IRON'', r_division = Some ''IV'', r_lp = 0\<rparr> \<and>
  fromTotalLP 2950 = \<lparr>r_tier = Some ''MASTER'', r_division = Some ''I'', r_lp = 150\<rparr> \<and>
  fromTotalLP 850 = \<lparr>r_tier = Some ''SILVER'', r_division = Some ''IV'', r_lp = 50\<rparr>"
  using fromTotalLP_cases[of "-5"] fromTotalLP_cases[of 2950] fromTotalLP_cases[of 850] by (simp add: TIERS_def DIVISIONS_def)

text \<open>
  Claim C6 as stated says that the apex result carries no division. At 2800 the code
  returns the division \<^verbatim>\<open>I\<close>.
\<close>

theorem fromTotalLP_apex_has_division: "fromTotalLP 2800 = \<lparr>r_tier = Some ''MASTER'', r_division = Some ''I'', r_lp = 0\<rparr> \<and>
   r_division (fromTotalLP 2800) \<noteq> None"
  by (simp add: fromTotalLP_def length_TIERS)

section \<open>Properties of the freshness cache\<close>

text \<open>
  Claim C7. When the win-rate and LP checks pass, \<^verbatim>\<open>cachedPlayerMeetsCriteria\<close>
  rejects exactly when \<open>lastActiveMinutes + floor((now - cachedAt) / 60000)\<close> exceeds
  \<^verbatim>\<open>activeWithinMinutes\<close>; a record cached 59 minutes ago with
  \<open>lastActiveMinutes = 10\<close> passes with a window of 70 minutes and fails with 60.
\<close>

theorem cachedPlayerMeetsCriteria_activity_window:
  assumes "\<not> js_less (winsOverGames (p_wins cached) (p_losses cached)) (minWinRate options)"
      and "minLP options = None \<or> maxLP options = None \<or>
           (the (minLP options) \<le> null_as_zero (p_totalLP cached) \<and>
            null_as_zero (p_totalLP cached) \<le> the (maxLP options))"
  shows "(cachedPlayerMeetsCriteria now cached options \<longleftrightarrow>
            \<not> p_lastActiveMinutes cached + (now - cachedAt cached) div 60000
                > activeWithinMinutes options) \<and>
         (cachedAt cached = now - 59 * 60000 \<and> p_lastActiveMinutes cached = 10 \<longrightarrow>
            (activeWithinMinutes options = 70 \<longrightarrow> cachedPlayerMeetsCriteria now cached options) \<and>
            (activeWithinMinutes options = 60 \<longrightarrow> \<not> cachedPlayerMeetsCriteria now cached options))"
proof -
  have eq: "cachedPlayerMeetsCriteria now cached options \<longleftrightarrow>
            \<not> p_lastActiveMinutes cached + (now - cachedAt cached) div 60000
                > activeWithinMinutes options"
    using assms by (auto simp: cachedPlayerMeetsCriteria_def Let_def)
  have "(now - (now - 59 * 60000)) div 60000 = (59::int)" by simp
  then show ?thesis using eq by auto
qed

theorem cachedPlayerMeetsCriteria_activity_window_witness:
  "cachedPlayerMeetsCriteria 3600000 (sample_cached 5 5 (3600000 - 59 * 60000)) (sample_criteria 70) \<and>
   \<not> cachedPlayerMeetsCriteria 3600000 (sample_cached 5 5 (3600000 - 59 * 60000)) (sample_criteria 60)"
proof -
  let ?c = "sample_cached 5 5 (3600000 - 59 * 60000)"
  have w: "\<not> js_less (winsOverGames (p_wins ?c) (p_losses ?c)) (minWinRate (sample_criteria a))" for a
    by (simp add: js_less_def winsOverGames_def sample_cached_def sample_criteria_def)
  have l: "minLP (sample_criteria a) = None \<or> maxLP (sample_criteria a) = None \<or>
           (the (minLP (sample_criteria a)) \<le> null_as_zero (p_totalLP ?c) \<and>
            null_as_zero (p_totalLP ?c) \<le> the (maxLP (sample_criteria a)))" for a
    by (simp add: null_as_zero_def sample_cached_def sample_criteria_def)
  have c: "cachedAt ?c = 3600000 - 59 * 60000 \<and> p_lastActiveMinutes ?c = 10"
    by (simp add: sample_cached_def)
  have a70: "activeWithinMinutes (sample_criteria 70) = 70"
    and a60: "activeWithinMinutes (sample_criteria 60) = 60"
    by (simp_all add: sample_criteria_def)
  from cachedPlayerMeetsCriteria_activity_window[OF w[of 70] l[of 70], where now = 3600000]
       cachedPlayerMeetsCriteria_activity_window[OF w[of 60] l[of 60], where now = 3600000]
       c a70 a60
  show ?thesis by blast
qed

text \<open>
  Claim C10. For a cached record with no wins and no losses and a positive
  \<^verbatim>\<open>minWinRate\<close>, the win-rate check of \<^verbatim>\<open>cachedPlayerMeetsCriteria\<close> does not reject
  (the quotient is \<^verbatim>\<open>NaN\<close>, which is not less than anything), so the record is
  accepted exactly when the activity and LP checks pass; the search engine's own
  win rate of the same counts is 0, which is below \<^verbatim>\<open>minWinRate\<close>.
\<close>

theorem zero_games_cached_record_not_rejected:
  assumes "p_wins cached = 0" and "p_losses cached = 0" and "0 < minWinRate options"
  shows "\<not> js_less (winsOverGames (p_wins cached) (p_losses cached)) (minWinRate options) \<and>
         (cachedPlayerMeetsCriteria now cached options \<longleftrightarrow>
            \<not> p_lastActiveMinutes cached + (now - cachedAt cached) div 60000
                > activeWithinMinutes options \<and>
            \<not> (minLP options \<noteq> None \<and> maxLP options \<noteq> None \<and>
               (null_as_zero (p_totalLP cached) < the (minLP options) \<or>
                null_as_zero (p_totalLP cached) > the (maxLP options)))) \<and>
         entryWinRate (p_wins cached) (p_losses cached) = 0 \<and>
         entryWinRate (p_wins cached) (p_losses cached) < minWinRate options"
  using assms
  by (auto simp: cachedPlayerMeetsCriteria_def Let_def winsOverGames_def js_less_def entryWinRate_def)

theorem zero_games_cached_record_not_rejected_witness:
  "cachedPlayerMeetsCriteria 60000 (sample_cached 0 0 0) (sample_criteria 30) \<and>
   entryWinRate 0 0 < minWinRate (sample_criteria 30)"
proof -
  let ?c = "sample_cached 0 0 0"
  have h: "p_wins ?c = 0" "p_losses ?c = 0" "0 < minWinRate (sample_criteria 30)"
    by (simp_all add: sample_cached_def sample_criteria_def)
  have v: "\<not> p_lastActiveMinutes ?c + (60000 - cachedAt ?c) div 60000
              > activeWithinMinutes (sample_criteria 30)"
    "\<not> (minLP (sample_criteria 30) \<noteq> None \<and> maxLP (sample_criteria 30) \<noteq> None \<and>
        (null_as_zero (p_totalLP ?c) < the (minLP (sample_criteria 30)) \<or>
         null_as_zero (p_totalLP ?c) > the (maxLP (sample_criteria 30))))"
    by (simp_all add: sample_cached_def sample_criteria_def null_as_zero_def)
  from zero_games_cached_record_not_rejected[OF h, where now = 60000] v h(1,2)
  show ?thesis by simp
qed

section \<open>Properties of the request gate\<close>

lemma isAborted_quiet:
  assumes "neverAborted env (polls s) (Suc n)"
  shows "isAborted env s =
           (False, s\<lparr>polls := polls s + pollCount env 1, trace := trace s @ pollEvents env\<rparr>)"
    and "neverAborted env (polls s + pollCount env 1) n"
  using assms
  by (auto simp: isAborted_def neverAborted_def pollCount_def pollEvents_def split: option.splits)

lemma coolDown_completes:
  assumes "neverAborted env (polls s) n" and "waited = waitTime - checkInterval * int n"
  shows "coolDown env waited s =
           (Inr (), s\<lparr>clock := clock s + checkInterval * int n,
                      polls := polls s + pollCount env n,
                      trace := trace s @ coolDownEvents env n\<rparr>)"
  using assms
proof (induction n arbitrary: waited s)
  case 0
  then show ?case
    by (subst coolDown.simps) (simp add: coolDownEvents_def pollCount_def split: option.splits)
next
  case (Suc n)
  let ?s1 = "s\<lparr>polls := polls s + pollCount env 1, trace := trace s @ pollEvents env\<rparr>"
  have lt: "waited < waitTime" using Suc.prems(2) by (simp add: checkInterval_def)
  have ih: "coolDown env (waited + checkInterval) (sleep checkInterval ?s1) =
             (Inr (), (sleep checkInterval ?s1)\<lparr>clock := clock (sleep checkInterval ?s1) + checkInterval * int n,
                      polls := polls (sleep checkInterval ?s1) + pollCount env n,
                      trace := trace (sleep checkInterval ?s1) @ coolDownEvents env n\<rparr>)"
  proof (rule Suc.IH)
    show "neverAborted env (polls (sleep checkInterval ?s1)) n"
      using isAborted_quiet(2)[OF Suc.prems(1)] by (simp add: sleep_def)
    show "waited + checkInterval = waitTime - checkInterval * int n"
      using Suc.prems(2) by (simp add: algebra_simps)
  qed
  have "coolDown env waited s = coolDown env (waited + checkInterval) (sleep checkInterval ?s1)"
    by (simp add: coolDown.simps[of env waited s] lt isAborted_quiet(1)[OF Suc.prems(1)])
  also note ih
  also have "(Inr (), (sleep checkInterval ?s1)\<lparr>clock := clock (sleep checkInterval ?s1) + checkInterval * int n,
                      polls := polls (sleep checkInterval ?s1) + pollCount env n,
                      trace := trace (sleep checkInterval ?s1) @ coolDownEvents env n\<rparr>) =
        (Inr () :: error + unit, s\<lparr>clock := clock s + checkInterval * int (Suc n),
                      polls := polls s + pollCount env (Suc n),
                      trace := trace s @ coolDownEvents env (Suc n)\<rparr>)"
    by (simp add: sleep_def coolDownEvents_def pollCount_def algebra_simps split: option.splits)
  finally show ?case .
qed

lemma wait_frame [simp]:
  "fetches (wait s) = fetches s" "polls (wait s) = polls s" "playerCache (wait s) = playerCache s"
  "disk (wait s) = disk s" "randoms (wait s) = randoms s" "lastRequest (wait s) = clock (wait s)"
  "clock s \<le> clock (wait s)"
  by (simp_all add: wait_def sleep_def Let_def minDelay_def)

lemma wait_no_sleep: "clock s - lastRequest s \<ge> minDelay \<Longrightarrow> wait s = s\<lparr>lastRequest := clock s\<rparr>"
  by (simp add: wait_def Let_def)

lemma notifyRateLimit_eq:
  "notifyRateLimit env limited seconds s = s\<lparr>trace := trace s @ rateLimitEvents env limited seconds\<rparr>"
  by (simp add: notifyRateLimit_def rateLimitEvents_def)

lemma apiRequest_success:
  assumes "upstream env (fetches s) url = Some (Response code payload)"
      and "ok (Response code payload)"
  shows "apiRequest env url s =
           Some (Inr payload,
                 (wait s)\<lparr>clock := clock (wait s) + int (latency env (fetches s)),
                          fetches := Suc (fetches s),
                          trace := trace (wait s) @ [Fetch url]\<rparr>)"
  using assms by (simp add: apiRequest.simps[of env url s] Let_def)

lemma apiRequest_overloaded:
  assumes "upstream env (fetches s) url = Some (Response 429 b429)"
  shows "apiRequest env url s =
           (case coolDown env 0
                   (notifyRateLimit env True 120
                      ((wait s)\<lparr>clock := clock (wait s) + int (latency env (fetches s)),
                               fetches := Suc (fetches s),
                               trace := trace (wait s) @ [Fetch url]\<rparr>)) of
              (Inl e, s3) \<Rightarrow> Some (Inl e, s3)
            | (Inr u, s3) \<Rightarrow> apiRequest env url (notifyRateLimit env False 0 s3))"
  using assms by (simp add: apiRequest.simps[of env url s] Let_def ok_def)

lemma coolDown_aborted:
  assumes "isSearchAborted env = Some f" and "f (polls s)"
  shows "coolDown env 0 s =
           (Inl SearchAborted, s\<lparr>polls := Suc (polls s), trace := trace s @ [AbortPoll True]\<rparr>)"
  using assms by (simp add: coolDown.simps[of env 0 s] waitTime_def isAborted_def)

lemma apiRequest_aborted:
  assumes "upstream env (fetches s) url = Some (Response 429 b429)"
      and "isSearchAborted env = Some f" and "f (polls s)"
  shows "apiRequest env url s =
           Some (Inl SearchAborted,
                 (wait s)\<lparr>clock := clock (wait s) + int (latency env (fetches s)),
                          fetches := Suc (fetches s),
                          polls := Suc (polls s),
                          trace := trace (wait s) @ [Fetch url] @ rateLimitEvents env True 120 @
                                   [AbortPoll True]\<rparr>)"
proof -
  define s2 where "s2 = notifyRateLimit env True 120
                      ((wait s)\<lparr>clock := clock (wait s) + int (latency env (fetches s)),
                               fetches := Suc (fetches s),
                               trace := trace (wait s) @ [Fetch url]\<rparr>)"
  have "f (polls s2)" using assms(3) by (simp add: s2_def notifyRateLimit_eq)
  from coolDown_aborted[OF assms(2) this] apiRequest_overloaded[OF assms(1)]
  have "apiRequest env url s =
          Some (Inl SearchAborted, s2\<lparr>polls := Suc (polls s2), trace := trace s2 @ [AbortPoll True]\<rparr>)"
    by (simp add: s2_def[symmetric])
  then show ?thesis by (simp add: s2_def notifyRateLimit_eq)
qed

lemma coolDown_aborted_at:
  assumes "isSearchAborted env = Some f" and "\<forall>i<j. \<not> f (polls s + i)" and "f (polls s + j)"
      and "waited = waitTime - checkInterval * int n" and "j < n"
  shows "coolDown env waited s =
           (Inl SearchAborted,
            s\<lparr>clock := clock s + checkInterval * int j,
              polls := polls s + Suc j,
              trace := trace s @ coolDownEvents env j @ [AbortPoll True]\<rparr>)"
  using assms(2-5)
proof (induction j arbitrary: waited s n)
  case 0
  then have lt: "waited < waitTime" by (simp add: checkInterval_def)
  from 0 have "f (polls s)" by simp
  then show ?case
    by (simp add: coolDown.simps[of env waited s] lt isAborted_def assms(1) coolDownEvents_def)
next
  case (Suc j)
  then obtain m where n: "n = Suc m" by (cases n) auto
  from Suc.prems have lt: "waited < waitTime" by (simp add: checkInterval_def)
  from Suc.prems(1) have nf: "\<not> f (polls s)" by (metis add.right_neutral zero_less_Suc)
  let ?s1 = "sleep checkInterval (s\<lparr>polls := Suc (polls s), trace := trace s @ [AbortPoll False]\<rparr>)"
  have p1: "polls ?s1 = Suc (polls s)" by (simp add: sleep_def)
  have ih: "coolDown env (waited + checkInterval) ?s1 =
           (Inl SearchAborted,
            ?s1\<lparr>clock := clock ?s1 + checkInterval * int j,
              polls := polls ?s1 + Suc j,
              trace := trace ?s1 @ coolDownEvents env j @ [AbortPoll True]\<rparr>)"
  proof (rule Suc.IH[where n = m])
    show "\<forall>i<j. \<not> f (polls ?s1 + i)"
    proof (intro allI impI)
      fix i assume "i < j"
      then have "Suc i < Suc j" by simp
      with Suc.prems(1) have "\<not> f (polls s + Suc i)" by blast
      then show "\<not> f (polls ?s1 + i)" by (simp add: p1)
    qed
    show "f (polls ?s1 + j)" using Suc.prems(2) by (simp add: p1)
    show "waited + checkInterval = waitTime - checkInterval * int m"
      using Suc.prems(3) n by (simp add: algebra_simps)
    show "j < m" using Suc.prems(4) n by simp
  qed
  have "coolDown env waited s = coolDown env (waited + checkInterval) ?s1"
    by (simp add: coolDown.simps[of env waited s] lt isAborted_def assms(1) nf)
  also note ih
  also have "(Inl SearchAborted,
            ?s1\<lparr>clock := clock ?s1 + checkInterval * int j,
              polls := polls ?s1 + Suc j,
              trace := trace ?s1 @ coolDownEvents env j @ [AbortPoll True]\<rparr>) =
         (Inl SearchAborted :: error + unit,
            s\<lparr>clock := clock s + checkInterval * int (Suc j),
              polls := polls s + Suc (Suc j),
              trace := trace s @ coolDownEvents env (Suc j) @ [AbortPoll True]\<rparr>)"
    by (simp add: sleep_def coolDownEvents_def pollEvents_def assms(1) algebra_simps)
  finally show ?case .
qed

lemma apiRequest_aborted_at:
  assumes "upstream env (fetches s) url = Some (Response 429 b429)"
      and "isSearchAborted env = Some f" and "j < 120"
      and "\<forall>i<j. \<not> f (polls s + i)" and "f (polls s + j)"
  shows "apiRequest env url s =
           Some (Inl SearchAborted,
                 (wait s)\<lparr>clock := clock (wait s) + int (latency env (fetches s)) + checkInterval * int j,
                          fetches := Suc (fetches s),
                          polls := polls s + Suc j,
                          trace := trace (wait s) @ [Fetch url] @ rateLimitEvents env True 120 @
                                   coolDownEvents env j @ [AbortPoll True]\<rparr>)"
proof -
  define s2 where "s2 = notifyRateLimit env True 120
                      ((wait s)\<lparr>clock := clock (wait s) + int (latency env (fetches s)),
                               fetches := Suc (fetches s),
                               trace := trace (wait s) @ [Fetch url]\<rparr>)"
  have p2: "polls s2 = polls s" by (simp add: s2_def notifyRateLimit_eq)
  have "coolDown env 0 s2 =
           (Inl SearchAborted,
            s2\<lparr>clock := clock s2 + checkInterval * int j,
              polls := polls s2 + Suc j,
              trace := trace s2 @ coolDownEvents env j @ [AbortPoll True]\<rparr>)"
    by (rule coolDown_aborted_at[OF assms(2), where n = 120])
       (use assms(3,4,5) p2 in \<open>simp_all add: waitTime_def checkInterval_def\<close>)
  with apiRequest_overloaded[OF assms(1)]
  have "apiRequest env url s =
          Some (Inl SearchAborted, s2\<lparr>clock := clock s2 + checkInterval * int j,
              polls := polls s2 + Suc j,
              trace := trace s2 @ coolDownEvents env j @ [AbortPoll True]\<rparr>)"
    by (simp add: s2_def[symmetric])
  then show ?thesis by (simp add: s2_def notifyRateLimit_eq)
qed

lemma wait_legacy_frame [simp]:
  "fetches (wait_legacy s) = fetches s" "polls (wait_legacy s) = polls s"
  "lastRequest (wait_legacy s) = clock (wait_legacy s)" "clock s \<le> clock (wait_legacy s)"
  by (simp_all add: wait_legacy_def sleep_def Let_def minDelay_legacy_def)

lemma wait_legacy_no_sleep:
  "clock s - lastRequest s \<ge> minDelay_legacy \<Longrightarrow> wait_legacy s = s\<lparr>lastRequest := clock s\<rparr>"
  by (simp add: wait_legacy_def Let_def)

lemma apiRequest_legacy_success:
  assumes "upstream env (fetches s) url = Some (Response code payload)"
      and "ok (Response code payload)"
  shows "apiRequest_legacy env url s =
           Some (Inr payload,
                 (wait_legacy s)\<lparr>clock := clock (wait_legacy s) + int (latency env (fetches s)),
                          fetches := Suc (fetches s),
                          trace := trace (wait_legacy s) @ [Fetch url]\<rparr>)"
  using assms by (simp add: apiRequest_legacy.simps[of env url s] Let_def)

lemma apiRequest_legacy_overloaded:
  assumes "upstream env (fetches s) url = Some (Response 429 b429)"
  shows "apiRequest_legacy env url s =
           apiRequest_legacy env url
             (notifyRateLimit env False 0 (sleep 120000 (notifyRateLimit env True 120
                ((wait_legacy s)\<lparr>clock := clock (wait_legacy s) + int (latency env (fetches s)),
                               fetches := Suc (fetches s),
                               trace := trace (wait_legacy s) @ [Fetch url]\<rparr>))))"
  using assms by (simp add: apiRequest_legacy.simps[of env url s] Let_def ok_def)

lemma apiRequest_legacy_recovers:
  assumes first: "upstream env (fetches s) url = Some (Response 429 b429)"
      and second: "upstream env (Suc (fetches s)) url = Some (Response code payload)"
      and success: "ok (Response code payload)"
  shows "\<exists>s'. apiRequest_legacy env url s = Some (Inr payload, s') \<and>
           trace s' = trace (wait_legacy s) @ [Fetch url] @ rateLimitEvents env True 120 @
                      [Sleep 120000] @ rateLimitEvents env False 0 @ [Fetch url] \<and>
           fetches s' = fetches s + 2 \<and> polls s' = polls s"
proof -
  let ?k = "fetches s"
  define s4 where "s4 = notifyRateLimit env False 0 (sleep 120000 (notifyRateLimit env True 120
                ((wait_legacy s)\<lparr>clock := clock (wait_legacy s) + int (latency env ?k),
                               fetches := Suc ?k,
                               trace := trace (wait_legacy s) @ [Fetch url]\<rparr>)))"
  have step1: "apiRequest_legacy env url s = apiRequest_legacy env url s4"
    unfolding s4_def by (rule apiRequest_legacy_overloaded[OF first])
  have f4: "fetches s4 = Suc ?k" and p4: "polls s4 = polls s"
    and c4: "clock s4 = clock (wait_legacy s) + int (latency env ?k) + 120000"
    and l4: "lastRequest s4 = clock (wait_legacy s)"
    and t4: "trace s4 = trace (wait_legacy s) @ [Fetch url] @ rateLimitEvents env True 120 @
                      [Sleep 120000] @ rateLimitEvents env False 0"
    by (simp_all add: s4_def notifyRateLimit_eq sleep_def)
  have late: "clock s4 - lastRequest s4 \<ge> minDelay_legacy"
    by (simp add: c4 l4 minDelay_legacy_def)
  have w4: "wait_legacy s4 = s4\<lparr>lastRequest := clock s4\<rparr>" by (rule wait_legacy_no_sleep[OF late])
  define s5 where "s5 = (wait_legacy s4)\<lparr>clock := clock (wait_legacy s4) + int (latency env (fetches s4)),
                          fetches := Suc (fetches s4),
                          trace := trace (wait_legacy s4) @ [Fetch url]\<rparr>"
  have u4: "upstream env (fetches s4) url = Some (Response code payload)"
    by (simp add: f4 second)
  have step2: "apiRequest_legacy env url s4 = Some (Inr payload, s5)"
    unfolding s5_def by (rule apiRequest_legacy_success[OF u4 success])
  have "trace s5 = trace s4 @ [Fetch url]" "polls s5 = polls s4" "fetches s5 = Suc (fetches s4)"
    by (simp_all add: s5_def w4)
  then show ?thesis using step1 step2 t4 p4 f4 by simp
qed

lemma apiRequest_recovers_quiet:
  assumes first: "upstream env (fetches s) url = Some (Response 429 b429)"
      and second: "upstream env (Suc (fetches s)) url = Some (Response code payload)"
      and success: "ok (Response code payload)"
      and quiet: "neverAborted env (polls s) 120"
  shows "\<exists>s'. apiRequest env url s = Some (Inr payload, s') \<and>
           trace s' = trace (wait s) @ [Fetch url] @ rateLimitEvents env True 120 @
                      coolDownEvents env 120 @ rateLimitEvents env False 0 @ [Fetch url] \<and>
           fetches s' = fetches s + 2 \<and>
           polls s' = polls s + pollCount env 120 \<and>
           clock s' \<ge> clock (wait s) + 120000"
proof -
  let ?k = "fetches s"
  define s2 where "s2 = notifyRateLimit env True 120
                      ((wait s)\<lparr>clock := clock (wait s) + int (latency env ?k),
                               fetches := Suc ?k,
                               trace := trace (wait s) @ [Fetch url]\<rparr>)"
  define s3 where "s3 = s2\<lparr>clock := clock s2 + checkInterval * int 120,
                   polls := polls s2 + pollCount env 120,
                   trace := trace s2 @ coolDownEvents env 120\<rparr>"
  define s4 where "s4 = notifyRateLimit env False 0 s3"
  have p2: "polls s2 = polls s" by (simp add: s2_def notifyRateLimit_eq)
  have cd: "coolDown env 0 s2 = (Inr (), s3)"
    unfolding s3_def
    by (rule coolDown_completes) (use quiet p2 in \<open>simp_all add: waitTime_def checkInterval_def\<close>)
  have step1: "apiRequest env url s = apiRequest env url s4"
    using apiRequest_overloaded[OF first] cd by (simp add: s2_def[symmetric] s4_def)
  have f4: "fetches s4 = Suc ?k"
    by (simp add: s4_def s3_def s2_def notifyRateLimit_eq)
  have c4: "clock s4 = clock (wait s) + int (latency env ?k) + 120000"
    by (simp add: s4_def s3_def s2_def notifyRateLimit_eq checkInterval_def)
  have l4: "lastRequest s4 = clock (wait s)"
    by (simp add: s4_def s3_def s2_def notifyRateLimit_eq)
  have late: "clock s4 - lastRequest s4 \<ge> minDelay"
    by (simp add: c4 l4 minDelay_def)
  have w4: "wait s4 = s4\<lparr>lastRequest := clock s4\<rparr>" by (rule wait_no_sleep[OF late])
  define s5 where "s5 = (wait s4)\<lparr>clock := clock (wait s4) + int (latency env (fetches s4)),
                          fetches := Suc (fetches s4),
                          trace := trace (wait s4) @ [Fetch url]\<rparr>"
  have u4: "upstream env (fetches s4) url = Some (Response code payload)"
    by (simp add: f4 second)
  have step2: "apiRequest env url s4 = Some (Inr payload, s5)"
    unfolding s5_def by (rule apiRequest_success[OF u4 success])
  have t4: "trace s4 = trace (wait s) @ [Fetch url] @ rateLimitEvents env True 120 @
                      coolDownEvents env 120 @ rateLimitEvents env False 0"
    and p4: "polls s4 = polls s + pollCount env 120"
    by (simp_all add: s4_def s3_def s2_def notifyRateLimit_eq)
  have "trace s5 = trace s4 @ [Fetch url]" "polls s5 = polls s4"
    "clock s5 = clock s4 + int (latency env (fetches s4))"
    by (simp_all add: s5_def w4)
  then have "trace s5 = trace (wait s) @ [Fetch url] @ rateLimitEvents env True 120 @
                      coolDownEvents env 120 @ rateLimitEvents env False 0 @ [Fetch url]"
    and "polls s5 = polls s + pollCount env 120"
    and "clock s5 \<ge> clock (wait s) + 120000"
    by (simp_all add: t4 p4 c4)
  moreover have "fetches s5 = fetches s + 2" by (simp add: s5_def f4)
  ultimately show ?thesis using step1 step2 by simp
qed

text \<open>
  Claim C1, as the code has it. The upstream answers a request with HTTP 429 once and
  then with a success. \<^verbatim>\<open>apiRequest\<close> notifies the rate-limit observer (when one is
  installed) with \<open>(true, 120)\<close> and polls the abort predicate (when one is installed)
  before each of the 120 seconds of the cool-down.

  \<^item> If every poll answers false, it sleeps the 120 seconds one by one, notifies the
    observer with \<open>(false, 0)\<close>, fetches the same URL once more and returns the payload
    of the success: two fetches in all, the second at least 120 seconds after the
    limiter released the first.

  \<^item> If the poll before second \<open>j\<close> is the first to answer true, it throws
    \<^verbatim>\<open>Search aborted\<close> at that poll, after \<open>j\<close> seconds of sleep: the observer is not
    notified again and the URL is not fetched again.

  \<^item> The legacy copy in \<^verbatim>\<open>scout.js\<close> sleeps the 120 seconds in one piece, polls nothing
    and returns the payload after its second fetch.
\<close>

theorem apiRequest_recovers_from_one_overload:
  assumes first: "upstream env (fetches s) url = Some (Response 429 b429)"
      and second: "upstream env (Suc (fetches s)) url = Some (Response code payload)"
      and success: "ok (Response code payload)"
  shows "(neverAborted env (polls s) 120 \<longrightarrow>
            (\<exists>s'. apiRequest env url s = Some (Inr payload, s') \<and>
                  trace s' = trace (wait s) @ [Fetch url] @ rateLimitEvents env True 120 @
                             coolDownEvents env 120 @ rateLimitEvents env False 0 @ [Fetch url] \<and>
                  fetches s' = fetches s + 2 \<and>
                  polls s' = polls s + pollCount env 120 \<and>
                  clock s' \<ge> clock (wait s) + 120000)) \<and>
         (\<forall>f j. isSearchAborted env = Some f \<and> j < 120 \<and>
                (\<forall>i<j. \<not> f (polls s + i)) \<and> f (polls s + j) \<longrightarrow>
            (\<exists>s'. apiRequest env url s = Some (Inl SearchAborted, s') \<and>
                  trace s' = trace (wait s) @ [Fetch url] @ rateLimitEvents env True 120 @
                             coolDownEvents env j @ [AbortPoll True] \<and>
                  fetches s' = fetches s + 1 \<and>
                  polls s' = polls s + j + 1 \<and>
                  clock s' = clock (wait s) + int (latency env (fetches s)) + 1000 * int j)) \<and>
         (\<exists>s'. apiRequest_legacy env url s = Some (Inr payload, s') \<and>
               trace s' = trace (wait_legacy s) @ [Fetch url] @ rateLimitEvents env True 120 @
                          [Sleep 120000] @ rateLimitEvents env False 0 @ [Fetch url] \<and>
               fetches s' = fetches s + 2 \<and> polls s' = polls s)"
proof (intro conjI impI allI)
  assume "neverAborted env (polls s) 120"
  then show "\<exists>s'. apiRequest env url s = Some (Inr payload, s') \<and>
                  trace s' = trace (wait s) @ [Fetch url] @ rateLimitEvents env True 120 @
                             coolDownEvents env 120 @ rateLimitEvents env False 0 @ [Fetch url] \<and>
                  fetches s' = fetches s + 2 \<and>
                  polls s' = polls s + pollCount env 120 \<and>
                  clock s' \<ge> clock (wait s) + 120000"
    by (rule apiRequest_recovers_quiet[OF first second success])
next
  fix f j
  assume a: "isSearchAborted env = Some f \<and> j < 120 \<and>
             (\<forall>i<j. \<not> f (polls s + i)) \<and> f (polls s + j)"
  then have a1: "isSearchAborted env = Some f" and a2: "j < 120"
    and a3: "\<forall>i<j. \<not> f (polls s + i)" and a4: "f (polls s + j)"
    by blast+
  show "\<exists>s'. apiRequest env url s = Some (Inl SearchAborted, s') \<and>
                  trace s' = trace (wait s) @ [Fetch url] @ rateLimitEvents env True 120 @
                             coolDownEvents env j @ [AbortPoll True] \<and>
                  fetches s' = fetches s + 1 \<and>
                  polls s' = polls s + j + 1 \<and>
                  clock s' = clock (wait s) + int (latency env (fetches s)) + 1000 * int j"
    by (simp add: apiRequest_aborted_at[OF first a1 a2 a3 a4] checkInterval_def)
next
  show "\<exists>s'. apiRequest_legacy env url s = Some (Inr payload, s') \<and>
               trace s' = trace (wait_legacy s) @ [Fetch url] @ rateLimitEvents env True 120 @
                          [Sleep 120000] @ rateLimitEvents env False 0 @ [Fetch url] \<and>
               fetches s' = fetches s + 2 \<and> polls s' = polls s"
    by (rule apiRequest_legacy_recovers[OF first second success])
qed

theorem apiRequest_recovers_from_one_overload_witness:
  "(\<exists>s'. apiRequest env429 (MatchIdsUrl ''puuid-a'' 1 None) state0 = Some (Inr (BIds [''NA1_1'']), s') \<and>
        trace s' = [Fetch (MatchIdsUrl ''puuid-a'' 1 None), RateLimit True 120] @
                   concat (replicate 120 [AbortPoll False, Sleep 1000]) @
                   [RateLimit False 0, Fetch (MatchIdsUrl ''puuid-a'' 1 None)] \<and>
        fetches s' = 2 \<and> clock s' \<ge> 121000) \<and>
   (\<exists>s'. apiRequest env429_abort_late (MatchIdsUrl ''puuid-a'' 1 None) state0 = Some (Inl SearchAborted, s') \<and>
        trace s' = [Fetch (MatchIdsUrl ''puuid-a'' 1 None), RateLimit True 120,
                    AbortPoll False, Sleep 1000, AbortPoll False, Sleep 1000, AbortPoll True] \<and>
        fetches s' = 1 \<and> polls s' = 3 \<and> clock s' = 3020) \<and>
   (\<exists>s'. apiRequest_legacy env429 (MatchIdsUrl ''puuid-a'' 1 None) state0 = Some (Inr (BIds [''NA1_1'']), s') \<and>
        trace s' = [Fetch (MatchIdsUrl ''puuid-a'' 1 None), RateLimit True 120, Sleep 120000,
                    RateLimit False 0, Fetch (MatchIdsUrl ''puuid-a'' 1 None)] \<and>
        fetches s' = 2 \<and> polls s' = 0)"
proof -
  let ?U = "MatchIdsUrl ''puuid-a'' 1 None"
  have a: "upstream env429 (fetches state0) ?U = Some (Response 429 BNull)"
    "upstream env429_abort_late (fetches state0) ?U = Some (Response 429 BNull)"
    by (simp_all add: env429_def env429_abort_late_def state0_def)
  have b: "upstream env429 (Suc (fetches state0)) ?U = Some (Response 200 (BIds [''NA1_1'']))"
    "upstream env429_abort_late (Suc (fetches state0)) ?U = Some (Response 200 (BIds [''NA1_1'']))"
    by (simp_all add: env429_def env429_abort_late_def state0_def)
  have c: "ok (Response 200 (BIds [''NA1_1'']))" by (simp add: ok_def)
  have d: "neverAborted env429 (polls state0) 120" by (simp add: neverAborted_def env429_def)
  have e: "isSearchAborted env429_abort_late = Some (\<lambda>k. 2 \<le> k) \<and> (2::nat) < 120 \<and>
           (\<forall>i<2. \<not> 2 \<le> polls state0 + i) \<and> 2 \<le> polls state0 + 2"
    by (simp add: env429_abort_late_def state0_def)
  have tw: "trace (wait state0) = []" "clock (wait state0) = 1000" "fetches state0 = 0"
    "trace (wait_legacy state0) = []" "polls state0 = 0"
    by (simp_all add: wait_def wait_legacy_def state0_def minDelay_def minDelay_legacy_def Let_def)
  have ev: "rateLimitEvents env429 True 120 = [RateLimit True 120]"
    "rateLimitEvents env429 False 0 = [RateLimit False 0]"
    "coolDownEvents env429 120 = concat (replicate 120 [AbortPoll False, Sleep 1000])"
    "rateLimitEvents env429_abort_late True 120 = [RateLimit True 120]"
    "coolDownEvents env429_abort_late 2 = [AbortPoll False, Sleep 1000, AbortPoll False, Sleep 1000]"
    "latency env429_abort_late 0 = 20"
    by (simp_all add: rateLimitEvents_def coolDownEvents_def pollEvents_def env429_def
          env429_abort_late_def checkInterval_def numeral_2_eq_2)
  note quiet = apiRequest_recovers_from_one_overload[OF a(1) b(1) c, THEN conjunct1, rule_format, OF d]
  note legacy = apiRequest_recovers_from_one_overload[OF a(1) b(1) c, THEN conjunct2, THEN conjunct2]
  note late = apiRequest_recovers_from_one_overload[OF a(2) b(2) c, THEN conjunct2, THEN conjunct1,
                rule_format, OF e]
  from quiet have 1: "\<exists>s'. apiRequest env429 ?U state0 = Some (Inr (BIds [''NA1_1'']), s') \<and>
        trace s' = [Fetch ?U, RateLimit True 120] @
                   concat (replicate 120 [AbortPoll False, Sleep 1000]) @
                   [RateLimit False 0, Fetch ?U] \<and>
        fetches s' = 2 \<and> clock s' \<ge> 121000"
    unfolding tw ev by auto
  from late have 2: "\<exists>s'. apiRequest env429_abort_late ?U state0 = Some (Inl SearchAborted, s') \<and>
        trace s' = [Fetch ?U, RateLimit True 120,
                    AbortPoll False, Sleep 1000, AbortPoll False, Sleep 1000, AbortPoll True] \<and>
        fetches s' = 1 \<and> polls s' = 3 \<and> clock s' = 3020"
    unfolding tw ev by auto
  from legacy have 3: "\<exists>s'. apiRequest_legacy env429 ?U state0 = Some (Inr (BIds [''NA1_1'']), s') \<and>
        trace s' = [Fetch ?U, RateLimit True 120, Sleep 120000, RateLimit False 0, Fetch ?U] \<and>
        fetches s' = 2 \<and> polls s' = 0"
    unfolding tw ev by auto
  from 1 2 3 show ?thesis by blast
qed

text \<open>
  Claim C1 as stated promises the payload whenever the upstream answers 429 once and then
  succeeds. With an abort predicate that answers true during the cool-down the request
  ends with the error \<^verbatim>\<open>Search aborted\<close> and the success is never fetched.
\<close>

theorem apiRequest_overload_abort_throws:
  "upstream env429_aborting 0 (MatchIdsUrl ''puuid-a'' 1 None) = Some (Response 429 BNull) \<and>
   upstream env429_aborting 1 (MatchIdsUrl ''puuid-a'' 1 None) = Some (Response 200 (BIds [''NA1_1''])) \<and>
   map_option fst (apiRequest env429_aborting (MatchIdsUrl ''puuid-a'' 1 None) state0)
     = Some (Inl SearchAborted)"
proof -
  have a: "upstream env429_aborting (fetches state0) (MatchIdsUrl ''puuid-a'' 1 None) = Some (Response 429 BNull)"
    by (simp add: env429_def env429_aborting_def state0_def)
  have b: "isSearchAborted env429_aborting = Some (\<lambda>k. True)"
    by (simp add: env429_aborting_def)
  from apiRequest_aborted[OF a b]
  have "map_option fst (apiRequest env429_aborting (MatchIdsUrl ''puuid-a'' 1 None) state0)
     = Some (Inl SearchAborted)"
    by simp
  moreover have "upstream env429_aborting 0 (MatchIdsUrl ''puuid-a'' 1 None) = Some (Response 429 BNull)"
    "upstream env429_aborting 1 (MatchIdsUrl ''puuid-a'' 1 None) = Some (Response 200 (BIds [''NA1_1'']))"
    by (simp_all add: env429_def env429_aborting_def)
  ultimately show ?thesis by simp
qed

section \<open>Termination of the search\<close>


lemma forEach_total:
  assumes "\<And>x st. step x st \<noteq> None"
  shows "forEach step xs st \<noteq> None"
proof (induction xs arbitrary: st)
  case Nil
  show ?case by simp
next
  case (Cons x xs)
  obtain fl st1 where "step x st = Some (fl, st1)" using assms[of x st] by (cases "step x st") auto
  then show ?case using Cons.IH[of st1] by (cases fl) simp_all
qed

lemma isAborted_frame:
  assumes "isAborted env s = (aborted, s1)"
  shows "fetches s1 = fetches s" "playerCache s1 = playerCache s" "disk s1 = disk s"
    "randoms s1 = randoms s" "clock s1 = clock s"
  using assms by (auto simp: isAborted_def split: option.splits)

lemma coolDown_frame:
  "coolDown env waited s = (r, s') \<Longrightarrow>
     fetches s' = fetches s \<and> playerCache s' = playerCache s \<and> disk s' = disk s"
proof (induction env waited s arbitrary: r s' rule: coolDown.induct)
  case (1 env waited s)
  show ?case
  proof (cases "waited < waitTime")
    case False
    with "1.prems" show ?thesis by (simp add: coolDown.simps[of env waited s])
  next
    case True
    obtain aborted s1 where ab: "isAborted env s = (aborted, s1)" by (cases "isAborted env s")
    note f1 = isAborted_frame[OF ab]
    show ?thesis
    proof (cases aborted)
      case True
      with "1.prems" \<open>waited < waitTime\<close> ab f1 show ?thesis
        by (simp add: coolDown.simps[of env waited s])
    next
      case False
      with "1.prems" \<open>waited < waitTime\<close> ab
      have "coolDown env (waited + checkInterval) (sleep checkInterval s1) = (r, s')"
        by (simp add: coolDown.simps[of env waited s])
      from "1.IH"[OF \<open>waited < waitTime\<close> ab[symmetric] refl False this] f1
      show ?thesis by (simp add: sleep_def)
    qed
  qed
qed

lemma apiRequest_not_429:
  assumes "\<not> is429 (upstream env (fetches s) url)"
  shows "apiRequest env url s \<noteq> None"
  using assms
  by (simp add: apiRequest.simps[of env url s] Let_def is429_def split: option.splits)

lemma apiRequest_eventually:
  assumes "\<not> is429 (upstream env (fetches s + j) url)"
  shows "apiRequest env url s \<noteq> None"
  using assms
proof (induction j arbitrary: s)
  case 0
  then show ?case using apiRequest_not_429[of env s url] by simp
next
  case (Suc j)
  show ?case
  proof (cases "is429 (upstream env (fetches s) url)")
    case False
    then show ?thesis by (rule apiRequest_not_429)
  next
    case True
    then obtain b429 where first: "upstream env (fetches s) url = Some (Response 429 b429)"
      by (auto simp: is429_def split: option.splits) (metis response.collapse)
    define s2 where "s2 = notifyRateLimit env True 120
                      ((wait s)\<lparr>clock := clock (wait s) + int (latency env (fetches s)),
                               fetches := Suc (fetches s),
                               trace := trace (wait s) @ [Fetch url]\<rparr>)"
    obtain r s3 where cd: "coolDown env 0 s2 = (r, s3)" by (cases "coolDown env 0 s2")
    have f3: "fetches s3 = Suc (fetches s)"
      using coolDown_frame[OF cd] by (simp add: s2_def notifyRateLimit_eq)
    show ?thesis
    proof (cases r)
      case (Inl e)
      with apiRequest_overloaded[OF first] cd show ?thesis by (simp add: s2_def[symmetric])
    next
      case (Inr u)
      have "\<not> is429 (upstream env (fetches (notifyRateLimit env False 0 s3) + j) url)"
        using Suc.prems by (simp add: notifyRateLimit_eq f3)
      from Suc.IH[OF this] apiRequest_overloaded[OF first] cd Inr
      show ?thesis by (simp add: s2_def[symmetric])
    qed
  qed
qed

lemma apiRequest_total:
  assumes "overloadEnds env"
  shows "apiRequest env url s \<noteq> None"
proof -
  from assms obtain j where "\<not> is429 (upstream env (fetches s + j) url)"
    unfolding overloadEnds_def by blast
  then show ?thesis by (rule apiRequest_eventually)
qed

lemma caught_total: "r \<noteq> None \<Longrightarrow> caught r \<noteq> None"
  by (auto simp: caught_def split: option.splits sum.splits)

lemma resolveName_total:
  assumes "overloadEnds env"
  shows "resolveName env puuid s \<noteq> None"
  using caught_total[OF apiRequest_total[OF assms, of "AccountByPuuidUrl puuid" s]]
  by (auto simp: resolveName_def getRiotIdByPuuid_def split: option.splits)

lemma getLastActiveMinutes_total:
  assumes "overloadEnds env"
  shows "getLastActiveMinutes env puuid s \<noteq> None"
proof -
  note t = caught_total[OF apiRequest_total[OF assms]]
  obtain matchIds s1 where a: "caught (getMatchIds env puuid 1 None s) = Some (matchIds, s1)"
    using t[of "MatchIdsUrl puuid 1 None" s] by (auto simp: getMatchIds_def)
  show ?thesis
  proof (cases "firstMatchId matchIds")
    case None
    with a show ?thesis by (simp add: getLastActiveMinutes_def)
  next
    case (Some matchId)
    obtain details s2 where b: "caught (getMatchDetails env matchId s1) = Some (details, s2)"
      using t[of "MatchUrl matchId" s1] by (auto simp: getMatchDetails_def)
    with a Some show ?thesis
      by (simp add: getLastActiveMinutes_def Let_def split: option.splits)
  qed
qed

lemma leagueEntryStep_total:
  assumes "overloadEnds env"
  shows "leagueEntryStep env maxPlayers cacheOptions activity participantPuuid leagueEntry st \<noteq> None"
proof -
  obtain sr s where st: "st = (sr, s)" by (cases st)
  show ?thesis
    by (simp add: leagueEntryStep_def st Let_def resolveName_total[OF assms] split: option.splits)
qed

lemma participantStep_total:
  assumes "overloadEnds env"
  shows "participantStep env maxPlayers cacheOptions activity puuid participant st \<noteq> None"
proof -
  obtain sr s where st: "st = (sr, s)" by (cases st)
  obtain aborted s0 where ab: "isAborted env s = (aborted, s0)" by (cases "isAborted env s")
  note t = caught_total[OF apiRequest_total[OF assms]]
  let ?pp = "the (pt_puuid participant)"
  obtain summoner s1 where a: "caught (getSummonerByPuuid env ?pp s0) = Some (summoner, s1)"
    using t[of "SummonerByPuuidUrl ?pp" s0] by (auto simp: getSummonerByPuuid_def)
  have b: "caught (getLeagueEntriesBySummonerId env sid s1) \<noteq> None" for sid
    using t[of "LeagueBySummonerUrl sid" s1] by (simp add: getLeagueEntriesBySummonerId_def)
  have c: "forEach (leagueEntryStep env maxPlayers cacheOptions activity ?pp) xs st' \<noteq> None" for xs st'
    by (rule forEach_total) (rule leagueEntryStep_total[OF assms])
  show ?thesis
    by (simp add: participantStep_def st ab a b c Let_def split: option.splits)
qed

lemma entryStep_total:
  assumes "overloadEnds env"
  shows "entryStep env maxPlayers cacheOptions combo entry st \<noteq> None"
proof -
  obtain sr s where st: "st = (sr, s)" by (cases st)
  obtain aborted s0 where ab: "isAborted env s = (aborted, s0)" by (cases "isAborted env s")
  let ?p = "the (e_puuid entry)"
  obtain found s1 where a: "getLastActiveMinutes env ?p s0 = Some (found, s1)"
    using getLastActiveMinutes_total[OF assms, of ?p s0] by auto
  obtain displayName s2 where b: "resolveName env ?p s1 = Some (displayName, s2)"
    using resolveName_total[OF assms, of ?p s1] by auto
  have c: "forEach (participantStep env maxPlayers cacheOptions activity ?p) xs st' \<noteq> None"
    for activity xs st'
    by (rule forEach_total) (rule participantStep_total[OF assms])
  show ?thesis
    by (simp add: entryStep_def st ab a b c Let_def split: option.splits)
qed

lemma ladder_page:
  assumes "ladderAnswers env"
  shows "\<exists>b s' entries. getLeagueEntries env queue tier division page s = Some (Inr b, s') \<and>
           pageEntries b = Inr entries"
proof -
  from assms obtain response entries where
    r: "upstream env (fetches s) (LeagueExpUrl queue tier division page) = Some response"
    "ok response" "pageEntries (json response) = Inr entries"
    unfolding ladderAnswers_def by blast
  obtain code payload where c: "response = Response code payload" by (cases response)
  from apiRequest_success[OF r(1)[unfolded c] r(2)[unfolded c]] r(3) c
  show ?thesis by (simp add: getLeagueEntries_def)
qed

lemma mainStep_total:
  assumes "overloadEnds env"
  shows "mainStep env maxPlayers cacheOptions combos sr s \<noteq> None"
proof -
  have a: "getLeagueEntries env queue tier division page s' \<noteq> None" for queue tier division page s'
    by (simp add: getLeagueEntries_def apiRequest_total[OF assms])
  have b: "forEach (entryStep env maxPlayers cacheOptions combo) xs st \<noteq> None" for combo xs st
    by (rule forEach_total) (rule entryStep_total[OF assms])
  show ?thesis
    by (simp add: mainStep_def Let_def a b split: prod.splits option.splits sum.splits)
qed

lemma mainStep_returns:
  assumes "ladderAnswers env"
      and "mainStep env maxPlayers cacheOptions combos sr s = Some (res, s')"
  shows "\<exists>x. res = Inr x"
proof (rule ccontr)
  assume "\<nexists>x. res = Inr x"
  then obtain err where err: "res = Inl err" by (cases res) auto
  obtain aborted s0 where ab: "isAborted env s = (aborted, s0)" by (cases "isAborted env s")
  let ?act = "activeIndices combos"
  obtain r s1 where r: "randomIndex env (length ?act) s0 = (r, s1)"
    by (cases "randomIndex env (length ?act) s0")
  let ?combo = "combos ! (?act ! r)"
  let ?unt = "untriedPagesOf ?combo"
  obtain r2 s2 where r2: "randomIndex env (length ?unt) s1 = (r2, s2)"
    by (cases "randomIndex env (length ?unt) s1")
  let ?page = "?unt ! r2"
  let ?combo1 = "?combo\<lparr>triedPages := insert ?page (triedPages ?combo)\<rparr>"
  from ladder_page[OF assms(1), of "c_queue ?combo" "c_tier ?combo" "c_division ?combo" ?page s2]
  obtain b s3 entries where
    g: "getLeagueEntries env (c_queue ?combo) (c_tier ?combo) (c_division ?combo) ?page s2
          = Some (Inr b, s3)" "pageEntries b = Inr entries"
    by blast
  from assms(2) err show False
    by (simp add: mainStep_def ab r r2 g Let_def split: if_splits prod.splits option.splits)
qed

lemma mainLoop_total:
  assumes "overloadEnds env"
  shows "mainLoop env maxPlayers cacheOptions combos sr s \<noteq> None \<and>
         (ladderAnswers env \<longrightarrow>
            (\<exists>sr' s'. mainLoop env maxPlayers cacheOptions combos sr s = Some (Inr sr', s')))"
  using assms
proof (induction env maxPlayers cacheOptions combos sr s rule: mainLoop.induct)
  case (1 env maxPlayers cacheOptions combos sr s)
  obtain res s1 where ms: "mainStep env maxPlayers cacheOptions combos sr s = Some (res, s1)"
    using mainStep_total[OF "1.prems", of maxPlayers cacheOptions combos sr s] by auto
  show ?case
  proof (cases res)
    case (Inl err)
    with ms mainStep_returns[OF _ ms] show ?thesis
      by (auto simp: mainLoop.simps[of env maxPlayers cacheOptions combos sr s])
  next
    case (Inr x)
    obtain fl combos' sr' where x: "x = (fl, combos', sr')" by (cases x)
    show ?thesis
    proof (cases fl)
      case Break
      with ms Inr x show ?thesis
        by (simp add: mainLoop.simps[of env maxPlayers cacheOptions combos sr s])
    next
      case Continue
      have eq: "mainLoop env maxPlayers cacheOptions combos sr s =
                mainLoop env maxPlayers cacheOptions combos' sr' s1"
        using ms Inr x Continue
        by (simp add: mainLoop.simps[of env maxPlayers cacheOptions combos sr s])
      from "1.IH"[OF ms refl Inr _ Continue _ "1.prems", of "(combos', sr')" combos' sr'] x
      show ?thesis unfolding eq by simp
    qed
  qed
qed

lemma apiRequest_some_not_forever_429:
  assumes "apiRequest env url s = Some y"
  shows "\<not> ((\<forall>k. \<exists>b. upstream env k url = Some (Response 429 b)) \<and> isSearchAborted env = None)"
proof (rule apiRequest.raw_induct[where P = "\<lambda>env url s y.
         \<not> ((\<forall>k. \<exists>b. upstream env k url = Some (Response 429 b)) \<and> isSearchAborted env = None)",
         OF _ assms])
  fix apiRequest' :: "env \<Rightarrow> url \<Rightarrow> state \<Rightarrow> ((error + body) \<times> state) option"
    and env url s y
  assume IH: "\<And>env url s y. apiRequest' env url s = Some y \<Longrightarrow>
         \<not> ((\<forall>k. \<exists>b. upstream env k url = Some (Response 429 b)) \<and> isSearchAborted env = None)"
  assume step: "(let s1 = wait s; k = fetches s1;
          s2 = s1\<lparr>clock := clock s1 + int (latency env k), fetches := Suc k,
               trace := trace s1 @ [Fetch url]\<rparr>
      in case upstream env k url of None \<Rightarrow> Some (Inl NetworkError, s2)
         | Some response \<Rightarrow>
             if \<not> ok response
             then if status response = 403 then Some (Inl ApiKeyInvalid, s2)
                  else if status response = 429
                       then case coolDown env 0 (notifyRateLimit env True 120 s2) of
                            (Inl e, s3) \<Rightarrow> Some (Inl e, s3)
                            | (Inr u, s3) \<Rightarrow> apiRequest' env url (notifyRateLimit env False 0 s3)
                       else Some (Inl (ApiError (status response) url), s2)
             else Some (Inr (json response), s2)) = Some y"
  show "\<not> ((\<forall>k. \<exists>b. upstream env k url = Some (Response 429 b)) \<and> isSearchAborted env = None)"
  proof
    assume a: "(\<forall>k. \<exists>b. upstream env k url = Some (Response 429 b)) \<and> isSearchAborted env = None"
    then obtain b where first: "upstream env (fetches s) url = Some (Response 429 b)" by blast
    define s2 where "s2 = notifyRateLimit env True 120
                      ((wait s)\<lparr>clock := clock (wait s) + int (latency env (fetches s)),
                               fetches := Suc (fetches s),
                               trace := trace (wait s) @ [Fetch url]\<rparr>)"
    have q: "neverAborted env (polls s2) 120" using a by (simp add: neverAborted_def)
    have cd: "coolDown env 0 s2 = (Inr (), s2\<lparr>clock := clock s2 + checkInterval * int 120,
                      polls := polls s2 + pollCount env 120,
                      trace := trace s2 @ coolDownEvents env 120\<rparr>)"
      by (rule coolDown_completes[OF q]) (simp add: waitTime_def checkInterval_def)
    from step first cd have "\<exists>s4. apiRequest' env url s4 = Some y"
      by (auto simp: Let_def ok_def s2_def[symmetric])
    with IH a show False by blast
  qed
qed

lemma apiRequest_diverges:
  assumes "\<forall>k. \<exists>b. upstream env k url = Some (Response 429 b)" and "isSearchAborted env = None"
  shows "apiRequest env url s = None"
proof (cases "apiRequest env url s")
  case None
  then show ?thesis .
next
  case (Some y)
  from apiRequest_some_not_forever_429[OF Some] assms show ?thesis by blast
qed

lemma upt_1_51_nth0: "[1..<Suc 50] ! 0 = (1::nat)" and upt_1_51_ne: "[1..<Suc 50] \<noteq> []"
  by (simp_all del: upt_Suc add: upt_conv_Cons)

text \<open>
  Claim C3 as stated promises termination for every upstream. Against an upstream that
  answers every request with HTTP 429, and with no abort predicate installed, the first
  ladder request never returns, and neither does the search.
\<close>

theorem scoutPlayers_diverges_under_permanent_overload:
  "scoutPlayers env_overloaded demo_options state0 = None"
proof -
  have g: "getLeagueEntries env_overloaded q t d p s = None" for q t d p s
    unfolding getLeagueEntries_def
    by (rule apiRequest_diverges) (simp_all add: env_overloaded_def)
  let ?combo = "newCombination ''RANKED_SOLO_5x5'' (toUpperCase ''GOLD'', toUpperCase ''II'')"
  have sc: "searchCombinations demo_options = [?combo]"
    by (simp add: searchCombinations_def queuesToSearch_def tierDivisionsToSearch_def
          lpBounds_def truthy_def demo_options_def)
  have valid: "\<not> invalidLpRange demo_options" "o_maxPlayers demo_options = 3"
    by (simp_all add: invalidLpRange_def truthy_def demo_options_def)
  have unt: "untriedPagesOf ?combo = [1..<Suc 50]"
    by (simp add: untriedPagesOf_def newCombination_def del: upt_Suc)
  have act: "activeIndices [?combo] = [0]"
    by (simp add: activeIndices_def newCombination_def)
  have ms: "mainStep env_overloaded 3 cacheOptions [?combo]
              \<lparr>results = [], seenPuuids = {}, processedMatchIds = {}\<rparr> s = None" for cacheOptions s
    by (simp add: mainStep_def isAborted_def env_overloaded_def[THEN arg_cong, of isSearchAborted]
          act unt upt_1_51_ne upt_1_51_nth0 randomIndex_def g Let_def del: upt_Suc)
  have ml: "mainLoop env_overloaded 3 cacheOptions [?combo]
              \<lparr>results = [], seenPuuids = {}, processedMatchIds = {}\<rparr> s = None" for cacheOptions s
    by (simp add: mainLoop.simps[of env_overloaded 3 cacheOptions "[?combo]"] ms)
  show ?thesis
    by (simp add: scoutPlayers_def sc valid shuffleArray_def ml)
qed

text \<open>
  Claim C3, as the code has it. When no request is answered with HTTP 429 forever,
  \<^verbatim>\<open>scoutPlayers\<close> terminates: every request returns or throws, every iteration of the main
  loop that continues leaves less to explore (it marks a combination exhausted or tries
  one more of its pages), and the search ends with a result list or an error. When, in
  addition, every ladder-page request is answered with a page (for instance empty pages
  beyond page 1), the search returns its result list, which may be partial.
\<close>

theorem scoutPlayers_terminates:
  assumes "overloadEnds env"
  shows "scoutPlayers env options s \<noteq> None \<and>
         (\<forall>maxPlayers cacheOptions combos sr s0 combos' sr' s1.
            mainStep env maxPlayers cacheOptions combos sr s0 = Some (Inr (Continue, combos', sr'), s1)
              \<longrightarrow> remainingWork combos' < remainingWork combos) \<and>
         (ladderAnswers env \<longrightarrow>
            (\<exists>players s'. scoutPlayers env options s = Some (Inr players, s')))"
proof (intro conjI allI impI)
  note ml = mainLoop_total[OF assms]
  show "scoutPlayers env options s \<noteq> None"
    by (simp add: scoutPlayers_def ml[THEN conjunct1] split: prod.splits option.splits sum.splits)
  show "remainingWork combos' < remainingWork combos"
    if "mainStep env maxPlayers cacheOptions combos sr s0 = Some (Inr (Continue, combos', sr'), s1)"
    for maxPlayers cacheOptions combos sr s0 combos' sr' s1
    using that by (rule mainStep_decreases)
  show "\<exists>players s'. scoutPlayers env options s = Some (Inr players, s')" if l: "ladderAnswers env"
  proof (cases "invalidLpRange options")
    case True
    then show ?thesis by (simp add: scoutPlayers_def)
  next
    case False
    obtain cs s1 where sh: "shuffleArray env (searchCombinations options) s = (cs, s1)"
      by (cases "shuffleArray env (searchCombinations options) s")
    from ml[THEN conjunct2, rule_format, OF l] obtain sr' s' where
      "mainLoop env (o_maxPlayers options) (cacheOptionsOf options) cs
         \<lparr>results = [], seenPuuids = {}, processedMatchIds = {}\<rparr> s1 = Some (Inr sr', s')"
      by blast
    with False sh show ?thesis by (simp add: scoutPlayers_def)
  qed
qed

lemma demo_env_overloadEnds: "overloadEnds demo_env"
  unfolding overloadEnds_def
proof (intro allI)
  fix k url
  have "\<not> is429 (upstream demo_env (k + 0) url)"
    by (simp add: demo_env_def demo_upstream_def is429_def split: url.splits)
  then show "\<exists>j. \<not> is429 (upstream demo_env (k + j) url)" by blast
qed

lemma demo_env_ladderAnswers: "ladderAnswers demo_env"
  by (simp add: ladderAnswers_def demo_env_def demo_upstream_def ok_def pageEntries_def)

theorem scoutPlayers_terminates_witness:
  "overloadEnds demo_env \<and> ladderAnswers demo_env \<and>
   (\<exists>players s'. scoutPlayers demo_env demo_options state0 = Some (Inr players, s'))"
  using scoutPlayers_terminates[OF demo_env_overloadEnds, of demo_options state0]
    demo_env_overloadEnds demo_env_ladderAnswers
  by blast

section \<open>Invariant of the search\<close>

lemma mainLoop_error:
  "mainStep env maxPlayers cacheOptions combos sr s = Some (Inl err, s') \<Longrightarrow>
   mainLoop env maxPlayers cacheOptions combos sr s = Some (Inl err, s')"
  by (simp add: mainLoop.simps[of env maxPlayers cacheOptions combos sr s])

lemma mainLoop_break:
  "mainStep env maxPlayers cacheOptions combos sr s = Some (Inr (Break, combos', sr'), s') \<Longrightarrow>
   mainLoop env maxPlayers cacheOptions combos sr s = Some (Inr sr', s')"
  by (simp add: mainLoop.simps[of env maxPlayers cacheOptions combos sr s])

lemma mainStep_full:
  "\<not> of_nat (length (results sr)) < maxPlayers \<Longrightarrow>
   mainStep env maxPlayers cacheOptions combos sr s = Some (Inr (Break, combos, sr), s)"
  by (simp add: mainStep_def)

lemma mainLoop_continue:
  "mainStep env maxPlayers cacheOptions combos sr s = Some (Inr (Continue, combos', sr'), s') \<Longrightarrow>
   mainLoop env maxPlayers cacheOptions combos sr s = mainLoop env maxPlayers cacheOptions combos' sr' s'"
  by (simp add: mainLoop.simps[of env maxPlayers cacheOptions combos sr s])

lemma forEach_invariant:
  assumes "forEach step xs st = Some st'" and "I st"
      and "\<And>x st fl st1. I st \<Longrightarrow> step x st = Some (fl, st1) \<Longrightarrow>
             (fl = Continue \<longrightarrow> I st1) \<and> (fl = Break \<longrightarrow> Q st1)"
      and "\<And>st. I st \<Longrightarrow> Q st"
  shows "Q st'"
  using assms(1,2)
proof (induction xs arbitrary: st)
  case Nil
  then show ?case using assms(4) by simp
next
  case (Cons x xs)
  from Cons.prems(1) obtain fl st1 where s: "step x st = Some (fl, st1)"
    by (cases "step x st") auto
  show ?case
  proof (cases fl)
    case Continue
    with Cons.prems(1) s have "forEach step xs st1 = Some st'" by simp
    moreover have "I st1" using assms(3)[OF Cons.prems(2) s] Continue by simp
    ultimately show ?thesis by (rule Cons.IH)
  next
    case Break
    with Cons.prems(1) s have "st' = st1" by simp
    then show ?thesis using assms(3)[OF Cons.prems(2) s] Break by simp
  qed
qed

lemma apiRequest_playerCache:
  assumes "apiRequest env url s = Some y"
  shows "playerCache (snd y) = playerCache s"
proof (rule apiRequest.raw_induct[where P = "\<lambda>env url s y. playerCache (snd y) = playerCache s",
         OF _ assms])
  fix apiRequest' :: "env \<Rightarrow> url \<Rightarrow> state \<Rightarrow> ((error + body) \<times> state) option"
    and env url s y
  assume IH: "\<And>env url s y. apiRequest' env url s = Some y \<Longrightarrow> playerCache (snd y) = playerCache s"
  assume step: "(let s1 = wait s; k = fetches s1;
          s2 = s1\<lparr>clock := clock s1 + int (latency env k), fetches := Suc k,
               trace := trace s1 @ [Fetch url]\<rparr>
      in case upstream env k url of None \<Rightarrow> Some (Inl NetworkError, s2)
         | Some response \<Rightarrow>
             if \<not> ok response
             then if status response = 403 then Some (Inl ApiKeyInvalid, s2)
                  else if status response = 429
                       then case coolDown env 0 (notifyRateLimit env True 120 s2) of
                            (Inl e, s3) \<Rightarrow> Some (Inl e, s3)
                            | (Inr u, s3) \<Rightarrow> apiRequest' env url (notifyRateLimit env False 0 s3)
                       else Some (Inl (ApiError (status response) url), s2)
             else Some (Inr (json response), s2)) = Some y"
  define s2 where "s2 = (wait s)\<lparr>clock := clock (wait s) + int (latency env (fetches s)),
                               fetches := Suc (fetches s),
                               trace := trace (wait s) @ [Fetch url]\<rparr>"
  have c2: "playerCache s2 = playerCache s" by (simp add: s2_def)
  obtain r s3 where cd: "coolDown env 0 (notifyRateLimit env True 120 s2) = (r, s3)"
    by (cases "coolDown env 0 (notifyRateLimit env True 120 s2)")
  have c3: "playerCache s3 = playerCache s"
    using coolDown_frame[OF cd] c2 by (simp add: notifyRateLimit_eq)
  have c4: "playerCache (notifyRateLimit env False 0 s3) = playerCache s"
    using c3 by (simp add: notifyRateLimit_eq)
  from step have "y = (Inl NetworkError, s2) \<or> y = (Inl ApiKeyInvalid, s2) \<or>
        (\<exists>e. y = (Inl e, s2)) \<or> (\<exists>b. y = (Inr b, s2)) \<or> (\<exists>e. y = (Inl e, s3)) \<or>
        apiRequest' env url (notifyRateLimit env False 0 s3) = Some y"
    by (auto simp: Let_def s2_def[symmetric] cd split: option.splits if_splits sum.splits)
  then show "playerCache (snd y) = playerCache s"
    using c2 c3 c4 IH[of env url "notifyRateLimit env False 0 s3" y] by auto
qed

lemma caught_playerCache:
  assumes "caught (apiRequest env url s) = Some (b, s')"
  shows "playerCache s' = playerCache s"
proof -
  from assms obtain r where "apiRequest env url s = Some (r, s')"
    by (auto simp: caught_def split: option.splits sum.splits)
  from apiRequest_playerCache[OF this] show ?thesis by simp
qed

lemma resolveName_playerCache:
  assumes "resolveName env puuid s = Some (name, s')"
  shows "playerCache s' = playerCache s"
proof -
  from assms obtain b where "caught (apiRequest env (AccountByPuuidUrl puuid) s) = Some (b, s')"
    by (auto simp: resolveName_def getRiotIdByPuuid_def split: option.splits)
  then show ?thesis by (rule caught_playerCache)
qed

lemma getLastActiveMinutes_playerCache:
  assumes "getLastActiveMinutes env puuid s = Some (found, s')"
  shows "playerCache s' = playerCache s"
proof -
  obtain matchIds s1 where a: "caught (apiRequest env (MatchIdsUrl puuid 1 None) s) = Some (matchIds, s1)"
    using assms by (auto simp: getLastActiveMinutes_def getMatchIds_def split: option.splits)
  note c1 = caught_playerCache[OF a]
  show ?thesis
  proof (cases "firstMatchId matchIds")
    case None
    with assms a c1 show ?thesis by (simp add: getLastActiveMinutes_def getMatchIds_def)
  next
    case (Some matchId)
    with assms a obtain details where
      b: "caught (apiRequest env (MatchUrl matchId) s1) = Some (details, s')"
      by (auto simp: getLastActiveMinutes_def getMatchIds_def getMatchDetails_def Let_def
            split: option.splits)
    from caught_playerCache[OF b] c1 show ?thesis by simp
  qed
qed

lemma p_puuid_extend [simp]: "p_puuid (player.extend player ext) = p_puuid player"
  by (simp add: player.extend_def)

lemma p_puuid_truncate [simp]: "p_puuid (player.truncate cached) = p_puuid cached"
  by (simp add: player.truncate_def)

lemma cachePlayer_wf:
  assumes "cache_wf (playerCache s)"
  shows "cache_wf (playerCache (cachePlayer player s))"
  using assms by (auto simp: cachePlayer_def saveCache_def cache_wf_def Let_def split: if_splits)

lemma usableCached_puuid:
  assumes "cache_wf (playerCache s)" and "usableCached cacheOptions puuid s = Some cached"
  shows "p_puuid cached = puuid"
  using assms
  by (auto simp: usableCached_def getCachedPlayer_def cache_wf_def Let_def
        split: option.splits if_splits)

lemma acceptCached_inv:
  assumes "searchInv maxPlayers (sr, s)" and "of_nat (length (results sr)) < maxPlayers"
      and "puuid \<notin> seenPuuids sr" and "p_puuid cached = puuid"
  shows "searchInv maxPlayers (acceptCached env puuid cached (sr, s))"
  using assms
  by (auto simp: searchInv_def acceptCached_def notifyPlayerFound_def Let_def)

lemma fresh_player_inv:
  assumes "searchInv maxPlayers (sr, s)" and "of_nat (length (results sr)) < maxPlayers"
      and "p_puuid player \<notin> seenPuuids sr" and "playerCache s1 = playerCache s"
  shows "searchInv maxPlayers
           (sr\<lparr>seenPuuids := insert (p_puuid player) (seenPuuids sr),
               results := results sr @ [player]\<rparr>,
            notifyPlayerFound env player (cachePlayer player s1))"
proof -
  have "cache_wf (playerCache (cachePlayer player s1))"
    using assms(1,4) by (intro cachePlayer_wf) (simp add: searchInv_def)
  then show ?thesis
    using assms(1,2,3) by (auto simp: searchInv_def notifyPlayerFound_def)
qed

lemma leagueEntryStep_inv:
  assumes inv: "searchInv maxPlayers (sr, s)" and fresh: "participantPuuid \<notin> seenPuuids sr"
      and step: "leagueEntryStep env maxPlayers cacheOptions activity participantPuuid leagueEntry (sr, s)
                   = Some (fl, sr', s')"
  shows "(fl = Continue \<longrightarrow> searchInv maxPlayers (sr', s') \<and> participantPuuid \<notin> seenPuuids sr') \<and>
         (fl = Break \<longrightarrow> searchInv maxPlayers (sr', s'))"
proof (cases "of_nat (length (results sr)) \<ge> maxPlayers")
  case True
  with step inv show ?thesis by (simp add: leagueEntryStep_def)
next
  case False
  let ?lp = "toTotalLP (e_tier leagueEntry) (e_rank leagueEntry) (e_leaguePoints leagueEntry)"
  let ?wr = "entryWinRate (e_wins leagueEntry) (e_losses leagueEntry)"
  let ?skip = "(e_queueType leagueEntry \<noteq> ''RANKED_SOLO_5x5'' \<and>
                e_queueType leagueEntry \<noteq> ''RANKED_FLEX_SR'') \<or>
               (minLP cacheOptions \<noteq> None \<and> maxLP cacheOptions \<noteq> None \<and>
                 (?lp = None \<or> the ?lp < the (minLP cacheOptions) \<or>
                  the ?lp > the (maxLP cacheOptions))) \<or>
               ?wr < minWinRate cacheOptions"
  show ?thesis
  proof (cases ?skip)
    case True
    with step False have "fl = Continue \<and> sr' = sr \<and> s' = s"
      by (auto simp: leagueEntryStep_def Let_def split: if_splits)
    with inv fresh show ?thesis by simp
  next
    case skip: False
    obtain name s1 where rn: "resolveName env participantPuuid s = Some (name, s1)"
      using step False skip
      by (cases "resolveName env participantPuuid s") (auto simp: leagueEntryStep_def Let_def)
    define player where "player =
        \<lparr>p_name = name, p_region = ''na1'',
         p_queue = queueShortName (e_queueType leagueEntry),
         p_rank = e_tier leagueEntry @ '' '' @ e_rank leagueEntry,
         p_lp = e_leaguePoints leagueEntry, p_totalLP = ?lp,
         p_wins = e_wins leagueEntry, p_losses = e_losses leagueEntry,
         p_winRate = ?wr * 100, p_lastActiveMinutes = minutesAgo activity,
         p_lastGameMode = gameMode activity, p_hotStreak = e_hotStreak leagueEntry,
         p_veteran = e_veteran leagueEntry, p_freshBlood = e_freshBlood leagueEntry,
         p_puuid = participantPuuid, p_fromCache = False, p_fromMatch = Some True,
         p_updatedAt = clock s1\<rparr>"
    have pp: "p_puuid player = participantPuuid" by (simp add: player_def)
    from step False skip rn have res: "fl = Break"
      "sr' = sr\<lparr>seenPuuids := insert (p_puuid player) (seenPuuids sr),
                 results := results sr @ [player]\<rparr>"
      "s' = notifyPlayerFound env player (cachePlayer player s1)"
      by (auto simp: leagueEntryStep_def Let_def player_def)
    have "of_nat (length (results sr)) < maxPlayers" using False by simp
    from fresh_player_inv[OF inv this _ resolveName_playerCache[OF rn], of player env] fresh pp res
    show ?thesis by simp
  qed
qed

lemma forEach_leagueEntryStep_inv:
  assumes "searchInv maxPlayers (sr, s)" and "participantPuuid \<notin> seenPuuids sr"
      and "forEach (leagueEntryStep env maxPlayers cacheOptions activity participantPuuid)
             leagueEntries (sr, s) = Some st'"
  shows "searchInv maxPlayers st'"
proof (rule forEach_invariant[OF assms(3),
        where I = "\<lambda>st. searchInv maxPlayers st \<and> participantPuuid \<notin> seenPuuids (fst st)"])
  show "searchInv maxPlayers (sr, s) \<and> participantPuuid \<notin> seenPuuids (fst (sr, s))"
    using assms(1,2) by simp
next
  fix x st fl st1
  assume i: "searchInv maxPlayers st \<and> participantPuuid \<notin> seenPuuids (fst st)"
    and st: "leagueEntryStep env maxPlayers cacheOptions activity participantPuuid x st = Some (fl, st1)"
  obtain sr0 s0 where a: "st = (sr0, s0)" by (cases st)
  obtain sr1 s1 where b: "st1 = (sr1, s1)" by (cases st1)
  from leagueEntryStep_inv[of maxPlayers sr0 s0 participantPuuid env cacheOptions activity x fl sr1 s1]
    i st a b
  show "(fl = Continue \<longrightarrow> searchInv maxPlayers st1 \<and> participantPuuid \<notin> seenPuuids (fst st1)) \<and>
        (fl = Break \<longrightarrow> searchInv maxPlayers st1)" by simp
next
  fix st
  assume "searchInv maxPlayers st \<and> participantPuuid \<notin> seenPuuids (fst st)"
  then show "searchInv maxPlayers st" by simp
qed

lemma isAborted_playerCache: "isAborted env s = (aborted, s0) \<Longrightarrow> playerCache s0 = playerCache s"
  by (auto simp: isAborted_def split: option.splits)

lemma searchInv_state:
  "searchInv maxPlayers (sr, s) \<Longrightarrow> playerCache s' = playerCache s \<Longrightarrow> searchInv maxPlayers (sr, s')"
  by (simp add: searchInv_def)

lemma participantStep_inv:
  assumes inv: "searchInv maxPlayers (sr, s)"
      and step: "participantStep env maxPlayers cacheOptions activity puuid participant (sr, s)
                   = Some (fl, st')"
  shows "searchInv maxPlayers st'"
proof (cases "of_nat (length (results sr)) \<ge> maxPlayers")
  case True
  with step inv show ?thesis by (auto simp: participantStep_def)
next
  case False
  obtain aborted s0 where ab: "isAborted env s = (aborted, s0)" by (cases "isAborted env s")
  have inv0: "searchInv maxPlayers (sr, s0)"
    by (rule searchInv_state[OF inv isAborted_playerCache[OF ab]])
  let ?pp = "the (pt_puuid participant)"
  show ?thesis
  proof (cases "aborted \<or> \<not> truthy (pt_puuid participant) \<or> ?pp = puuid \<or> ?pp \<in> seenPuuids sr")
    case True
    with step False ab have "st' = (sr, s0)"
      by (auto simp: participantStep_def split: if_splits)
    with inv0 show ?thesis by simp
  next
    case go: False
    then have fresh: "?pp \<notin> seenPuuids sr" by simp
    show ?thesis
    proof (cases "usableCached cacheOptions ?pp s0")
      case (Some cached)
      with step False ab go have st': "st' = acceptCached env ?pp cached (sr, s0)"
        by (auto simp: participantStep_def Let_def)
      have "p_puuid cached = ?pp"
        using usableCached_puuid[OF _ Some] inv0 by (simp add: searchInv_def)
      from acceptCached_inv[OF inv0 _ fresh this] False show ?thesis unfolding st' by simp
    next
      case None
      obtain summoner s1 where
        a: "caught (apiRequest env (SummonerByPuuidUrl ?pp) s0) = Some (summoner, s1)"
        using step False ab go None
        by (cases "caught (apiRequest env (SummonerByPuuidUrl ?pp) s0)")
           (auto simp: participantStep_def getSummonerByPuuid_def Let_def)
      have inv1: "searchInv maxPlayers (sr, s1)"
        by (rule searchInv_state[OF inv0 caught_playerCache[OF a]])
      show ?thesis
      proof (cases "summonerId summoner")
        case nosid: None
        with step False ab go None a have "st' = (sr, s1)"
          by (auto simp: participantStep_def getSummonerByPuuid_def Let_def)
        with inv1 show ?thesis by simp
      next
        case (Some sid)
        obtain leagueEntries s2 where
          b: "caught (apiRequest env (LeagueBySummonerUrl sid) s1) = Some (leagueEntries, s2)"
          using step False ab go None a Some
          by (cases "caught (apiRequest env (LeagueBySummonerUrl sid) s1)")
             (auto simp: participantStep_def getSummonerByPuuid_def
                getLeagueEntriesBySummonerId_def Let_def)
        have inv2: "searchInv maxPlayers (sr, s2)"
          by (rule searchInv_state[OF inv1 caught_playerCache[OF b]])
        from step False ab go None a Some b
        have "forEach (leagueEntryStep env maxPlayers cacheOptions activity ?pp)
                (entriesOf leagueEntries) (sr, s2) = Some st'"
          by (auto simp: participantStep_def getSummonerByPuuid_def
                getLeagueEntriesBySummonerId_def Let_def split: option.splits)
        from forEach_leagueEntryStep_inv[OF inv2 fresh this] show ?thesis .
      qed
    qed
  qed
qed

lemma forEach_participantStep_inv:
  assumes "searchInv maxPlayers st"
      and "forEach (participantStep env maxPlayers cacheOptions activity puuid) participants st
             = Some st'"
  shows "searchInv maxPlayers st'"
proof (rule forEach_invariant[OF assms(2), where I = "searchInv maxPlayers"])
  show "searchInv maxPlayers st" by (rule assms(1))
next
  fix x st fl st1
  assume i: "searchInv maxPlayers st"
    and st: "participantStep env maxPlayers cacheOptions activity puuid x st = Some (fl, st1)"
  obtain sr0 s0 where a: "st = (sr0, s0)" by (cases st)
  from participantStep_inv[OF i[unfolded a] st[unfolded a]]
  show "(fl = Continue \<longrightarrow> searchInv maxPlayers st1) \<and> (fl = Break \<longrightarrow> searchInv maxPlayers st1)"
    by simp
qed

lemma searchInv_processed [simp]:
  "searchInv maxPlayers (sr\<lparr>processedMatchIds := ids\<rparr>, s) = searchInv maxPlayers (sr, s)"
  by (simp add: searchInv_def)

lemma entryStep_inv:
  assumes inv: "searchInv maxPlayers (sr, s)"
      and step: "entryStep env maxPlayers cacheOptions combo entry (sr, s) = Some (fl, st')"
  shows "searchInv maxPlayers st'"
proof (cases "of_nat (length (results sr)) \<ge> maxPlayers")
  case True
  with step inv show ?thesis by (auto simp: entryStep_def)
next
  case False
  obtain aborted s0 where ab: "isAborted env s = (aborted, s0)" by (cases "isAborted env s")
  have inv0: "searchInv maxPlayers (sr, s0)"
    by (rule searchInv_state[OF inv isAborted_playerCache[OF ab]])
  let ?p = "the (e_puuid entry)"
  let ?wr = "entryWinRate (e_wins entry) (e_losses entry)"
  let ?lp = "null_as_zero (toTotalLP (c_tier combo) (c_division combo) (e_leaguePoints entry))"
  let ?skip = "aborted \<or>
       (minLP cacheOptions \<noteq> None \<and> maxLP cacheOptions \<noteq> None \<and>
          (?lp < the (minLP cacheOptions) \<or> ?lp > the (maxLP cacheOptions))) \<or>
       ?wr < minWinRate cacheOptions \<or> \<not> truthy (e_puuid entry) \<or> ?p \<in> seenPuuids sr"
  show ?thesis
  proof (cases ?skip)
    case True
    with step False ab have "st' = (sr, s0)"
      by (auto simp: entryStep_def Let_def split: if_splits)
    with inv0 show ?thesis by simp
  next
    case go: False
    then have fresh: "?p \<notin> seenPuuids sr" by simp
    show ?thesis
    proof (cases "usableCached cacheOptions ?p s0")
      case (Some cached)
      with step False ab go have st': "st' = acceptCached env ?p cached (sr, s0)"
        by (auto simp: entryStep_def Let_def)
      have "p_puuid cached = ?p"
        using usableCached_puuid[OF _ Some] inv0 by (simp add: searchInv_def)
      from acceptCached_inv[OF inv0 _ fresh this] False show ?thesis unfolding st' by simp
    next
      case None
      obtain found s1 where a: "getLastActiveMinutes env ?p s0 = Some (found, s1)"
        using step False ab go None
        by (cases "getLastActiveMinutes env ?p s0") (auto simp: entryStep_def Let_def)
      note c1 = getLastActiveMinutes_playerCache[OF a]
      have inv1: "searchInv maxPlayers (sr, s1)" by (rule searchInv_state[OF inv0 c1])
      show ?thesis
      proof (cases "found \<noteq> None \<and> minutesAgo (the found) \<le> activeWithinMinutes cacheOptions")
        case inactive: False
        with step False ab go None a have "st' = (sr, s1)"
          by (auto simp: entryStep_def Let_def)
        with inv1 show ?thesis by simp
      next
        case active: True
        obtain name s2 where rn: "resolveName env ?p s1 = Some (name, s2)"
          using step False ab go None a active
          by (cases "resolveName env ?p s1") (auto simp: entryStep_def Let_def)
        define player where "player =
            \<lparr>p_name = name, p_region = ''na1'', p_queue = queueShortName (c_queue combo),
             p_rank = c_tier combo @ '' '' @ c_division combo, p_lp = e_leaguePoints entry,
             p_totalLP = toTotalLP (c_tier combo) (c_division combo) (e_leaguePoints entry),
             p_wins = e_wins entry, p_losses = e_losses entry, p_winRate = ?wr * 100,
             p_lastActiveMinutes = minutesAgo (the found),
             p_lastGameMode = gameMode (the found), p_hotStreak = e_hotStreak entry,
             p_veteran = e_veteran entry, p_freshBlood = e_freshBlood entry,
             p_puuid = ?p, p_fromCache = False, p_fromMatch = None, p_updatedAt = clock s2\<rparr>"
        define sr2 where "sr2 = sr\<lparr>seenPuuids := insert (p_puuid player) (seenPuuids sr),
                                   results := results sr @ [player]\<rparr>"
        define s4 where "s4 = notifyPlayerFound env player (cachePlayer player s2)"
        have pp: "p_puuid player = ?p" by (simp add: player_def)
        have c2: "playerCache s2 = playerCache s0" using resolveName_playerCache[OF rn] c1 by simp
        have "of_nat (length (results sr)) < maxPlayers" using False by simp
        from fresh_player_inv[OF inv0 this _ c2, of player env] fresh pp
        have inv4: "searchInv maxPlayers (sr2, s4)" by (simp add: sr2_def s4_def)
        let ?mid = "m_matchId (a_match (the found))"
        let ?expand = "truthy ?mid \<and> the ?mid \<notin> processedMatchIds sr2 \<and>
                       of_nat (length (results sr2)) < maxPlayers"
        show ?thesis
        proof (cases ?expand)
          case False
          with step \<open>\<not> maxPlayers \<le> of_nat (length (results sr))\<close> ab go None a active rn
          have "st' = (sr2, s4)"
            by (auto simp: entryStep_def Let_def player_def sr2_def s4_def)
          with inv4 show ?thesis by simp
        next
          case True
          with step \<open>\<not> maxPlayers \<le> of_nat (length (results sr))\<close> ab go None a active rn
          have "forEach (participantStep env maxPlayers cacheOptions (the found) ?p)
                  (m_participants (a_match (the found)))
                  (sr2\<lparr>processedMatchIds := insert (the ?mid) (processedMatchIds sr2)\<rparr>, s4)
                = Some st'"
            by (auto simp: entryStep_def Let_def player_def sr2_def s4_def split: option.splits)
          from forEach_participantStep_inv[OF _ this] inv4 show ?thesis by simp
        qed
      qed
    qed
  qed
qed

lemma forEach_entryStep_inv:
  assumes "searchInv maxPlayers st"
      and "forEach (entryStep env maxPlayers cacheOptions combo) entries st = Some st'"
  shows "searchInv maxPlayers st'"
proof (rule forEach_invariant[OF assms(2), where I = "searchInv maxPlayers"])
  show "searchInv maxPlayers st" by (rule assms(1))
next
  fix x st fl st1
  assume i: "searchInv maxPlayers st"
    and st: "entryStep env maxPlayers cacheOptions combo x st = Some (fl, st1)"
  obtain sr0 s0 where a: "st = (sr0, s0)" by (cases st)
  from entryStep_inv[OF i[unfolded a] st[unfolded a]]
  show "(fl = Continue \<longrightarrow> searchInv maxPlayers st1) \<and> (fl = Break \<longrightarrow> searchInv maxPlayers st1)"
    by simp
qed

lemma shuffleFrom_playerCache:
  "shuffleFrom env n xs s = (ys, s') \<Longrightarrow> playerCache s' = playerCache s"
proof (induction n arbitrary: xs s)
  case 0
  then show ?case by simp
next
  case (Suc n)
  then show ?case by (auto simp: Let_def randomIndex_def split: prod.splits)
qed

lemma shuffleArray_playerCache:
  "shuffleArray env xs s = (ys, s') \<Longrightarrow> playerCache s' = playerCache s"
  unfolding shuffleArray_def by (rule shuffleFrom_playerCache)

lemma randomIndex_playerCache:
  "randomIndex env n s = (r, s') \<Longrightarrow> playerCache s' = playerCache s"
  by (auto simp: randomIndex_def)

lemma mainStep_inv:
  assumes inv: "searchInv maxPlayers (sr, s)"
      and step: "mainStep env maxPlayers cacheOptions combos sr s = Some (Inr (fl, combos', sr'), s')"
  shows "searchInv maxPlayers (sr', s')"
proof -
  obtain aborted s0 where ab: "isAborted env s = (aborted, s0)" by (cases "isAborted env s")
  have inv0: "searchInv maxPlayers (sr, s0)"
    by (rule searchInv_state[OF inv isAborted_playerCache[OF ab]])
  let ?act = "activeIndices combos"
  obtain r s1 where r: "randomIndex env (length ?act) s0 = (r, s1)"
    by (cases "randomIndex env (length ?act) s0")
  have inv1: "searchInv maxPlayers (sr, s1)"
    by (rule searchInv_state[OF inv0 randomIndex_playerCache[OF r]])
  let ?combo = "combos ! (?act ! r)"
  let ?unt = "untriedPagesOf ?combo"
  obtain r2 s2 where r2: "randomIndex env (length ?unt) s1 = (r2, s2)"
    by (cases "randomIndex env (length ?unt) s1")
  have inv2: "searchInv maxPlayers (sr, s2)"
    by (rule searchInv_state[OF inv1 randomIndex_playerCache[OF r2]])
  let ?page = "?unt ! r2"
  let ?combo1 = "?combo\<lparr>triedPages := insert ?page (triedPages ?combo)\<rparr>"
  note base = mainStep_def ab r r2 Let_def
  show ?thesis
  proof (cases "\<not> of_nat (length (results sr)) < maxPlayers \<or> aborted \<or> ?act = [] \<or> ?unt = []")
    case True
    with step have "sr' = sr \<and> (s' = s \<or> s' = s0 \<or> s' = s1)"
      by (auto simp: base split: if_splits)
    with inv inv0 inv1 show ?thesis by auto
  next
    case go: False
    obtain res s3 where g: "getLeagueEntries env (c_queue ?combo) (c_tier ?combo)
                               (c_division ?combo) ?page s2 = Some (res, s3)"
      using step go
      by (cases "getLeagueEntries env (c_queue ?combo) (c_tier ?combo) (c_division ?combo) ?page s2")
         (auto simp: base)
    have inv3: "searchInv maxPlayers (sr, s3)"
      using apiRequest_playerCache[OF g[unfolded getLeagueEntries_def]] inv2
      by (simp add: searchInv_def)
    obtain b entries where b: "res = Inr b" "pageEntries b = Inr entries"
      using step go g by (auto simp: base split: sum.splits)
    show ?thesis
    proof (cases "entries = []")
      case True
      with step go g b have "sr' = sr \<and> s' = s3" by (auto simp: base)
      with inv3 show ?thesis by simp
    next
      case False
      obtain shuffledEntries s4 where sh: "shuffleArray env entries s3 = (shuffledEntries, s4)"
        by (cases "shuffleArray env entries s3")
      have inv4: "searchInv maxPlayers (sr, s4)"
        by (rule searchInv_state[OF inv3 shuffleArray_playerCache[OF sh]])
      from step go g b False sh
      have "forEach (entryStep env maxPlayers cacheOptions ?combo1) shuffledEntries (sr, s4)
              = Some (sr', s')"
        by (auto simp: base split: option.splits)
      from forEach_entryStep_inv[OF inv4 this] show ?thesis .
    qed
  qed
qed

lemma mainLoop_inv:
  assumes "searchInv maxPlayers (sr, s)"
      and "mainLoop env maxPlayers cacheOptions combos sr s = Some (Inr sr', s')"
  shows "searchInv maxPlayers (sr', s')"
  using assms
proof (induction env maxPlayers cacheOptions combos sr s rule: mainLoop.induct)
  case (1 env maxPlayers cacheOptions combos sr s)
  from "1.prems"(2) obtain res s1 where
    ms: "mainStep env maxPlayers cacheOptions combos sr s = Some (res, s1)"
    by (cases "mainStep env maxPlayers cacheOptions combos sr s")
       (auto simp: mainLoop.simps[of env maxPlayers cacheOptions combos sr s])
  from "1.prems"(2) ms obtain x where Inr: "res = Inr x"
    by (cases res) (auto simp: mainLoop.simps[of env maxPlayers cacheOptions combos sr s])
  obtain fl combos1 sr1 where x: "x = (fl, combos1, sr1)" by (cases x)
  have inv1: "searchInv maxPlayers (sr1, s1)"
    by (rule mainStep_inv[OF "1.prems"(1) ms[unfolded Inr x]])
  show ?case
  proof (cases fl)
    case Break
    with "1.prems"(2) ms Inr x have "sr' = sr1 \<and> s' = s1"
      by (simp add: mainLoop.simps[of env maxPlayers cacheOptions combos sr s])
    with inv1 show ?thesis by simp
  next
    case Continue
    have "mainLoop env maxPlayers cacheOptions combos1 sr1 s1 = Some (Inr sr', s')"
      using "1.prems"(2) ms Inr x Continue
      by (simp add: mainLoop.simps[of env maxPlayers cacheOptions combos sr s])
    from "1.IH"[OF ms refl Inr _ Continue _ inv1 this, of "(combos1, sr1)"] x
    show ?thesis by simp
  qed
qed

lemma scoutPlayers_returns:
  assumes "overloadEnds env" and "ladderAnswers env"
  shows "\<exists>players s'. scoutPlayers env options s = Some (Inr players, s')"
proof (cases "invalidLpRange options")
  case True
  then show ?thesis by (simp add: scoutPlayers_def)
next
  case False
  obtain cs s1 where sh: "shuffleArray env (searchCombinations options) s = (cs, s1)"
    by (cases "shuffleArray env (searchCombinations options) s")
  from mainLoop_total[OF assms(1), THEN conjunct2, rule_format, OF assms(2)] obtain sr' s' where
    "mainLoop env (o_maxPlayers options) (cacheOptionsOf options) cs
       \<lparr>results = [], seenPuuids = {}, processedMatchIds = {}\<rparr> s1 = Some (Inr sr', s')"
    by blast
  with False sh show ?thesis by (simp add: scoutPlayers_def)
qed

text \<open>
  Claim C4, as the code has it. Started with a cache in which every record is stored
  under its own player identifier, a run of \<^verbatim>\<open>scoutPlayers\<close> returns a list in which no
  two entries have the same player identifier; the list is empty or shorter than
  \<^verbatim>\<open>maxPlayers + 1\<close>, so that its length does not exceed a \<^verbatim>\<open>maxPlayers\<close> that is a whole
  number from 0 on; and the run leaves the cache in that form. The three accept paths
  (cache hit, fresh lookup, teammate expansion) each keep the invariant \<open>searchInv\<close>.
\<close>

theorem scoutPlayers_results_distinct_and_bounded:
  assumes "cache_wf (playerCache s)"
      and "scoutPlayers env options s = Some (Inr players, s')"
  shows "distinct (map p_puuid players) \<and>
         (players = [] \<or> of_nat (length players) < o_maxPlayers options + 1) \<and>
         (\<forall>n. o_maxPlayers options = of_nat n \<longrightarrow> length players \<le> n) \<and>
         cache_wf (playerCache s')"
proof (cases "invalidLpRange options")
  case True
  with assms show ?thesis by (auto simp: scoutPlayers_def)
next
  case False
  obtain cs s1 where sh: "shuffleArray env (searchCombinations options) s = (cs, s1)"
    by (cases "shuffleArray env (searchCombinations options) s")
  let ?sr0 = "\<lparr>results = [], seenPuuids = {}, processedMatchIds = {}\<rparr>"
  have inv0: "searchInv (o_maxPlayers options) (?sr0, s1)"
    using assms(1) shuffleArray_playerCache[OF sh] by (simp add: searchInv_def)
  from assms(2) False sh obtain sr s2 where
    ml: "mainLoop env (o_maxPlayers options) (cacheOptionsOf options) cs ?sr0 s1 = Some (Inr sr, s2)"
    and fin: "players = results sr" "s' = saveCache s2"
    by (auto simp: scoutPlayers_def split: option.splits sum.splits)
  from mainLoop_inv[OF inv0 ml] fin
  have d: "distinct (map p_puuid players)"
    and b: "players = [] \<or> of_nat (length players) < o_maxPlayers options + 1"
    and w: "cache_wf (playerCache s')"
    by (simp_all add: searchInv_def saveCache_def)
  have "length players \<le> n" if n: "o_maxPlayers options = of_nat n" for n
  proof (cases "players = []")
    case True
    then show ?thesis by simp
  next
    case False
    with b n have "(of_nat (length players) :: rat) < of_nat (Suc n)" by simp
    then have "length players < Suc n" by (simp only: of_nat_less_iff)
    then show ?thesis by simp
  qed
  with d b w show ?thesis by blast
qed

lemma cache_wf_empty: "cache_wf fmempty"
  by (simp add: cache_wf_def)

lemma loadCache_wf: "cache_wf (disk s) \<Longrightarrow> cache_wf (playerCache (loadCache s))"
  by (simp add: loadCache_def)

theorem scoutPlayers_results_distinct_and_bounded_witness:
  "cache_wf (playerCache state0) \<and>
   (\<exists>players s'. scoutPlayers demo_env demo_options state0 = Some (Inr players, s') \<and>
      distinct (map p_puuid players) \<and> length players \<le> 3 \<and> cache_wf (playerCache s'))"
proof -
  have wf: "cache_wf (playerCache state0)" by (simp add: state0_def cache_wf_empty)
  obtain players s' where
    run: "scoutPlayers demo_env demo_options state0 = Some (Inr players, s')"
    using scoutPlayers_returns[OF demo_env_overloadEnds demo_env_ladderAnswers] by blast
  have m: "o_maxPlayers demo_options = of_nat 3" by (simp add: demo_options_def)
  from scoutPlayers_results_distinct_and_bounded[OF wf run] wf run m show ?thesis by blast
qed

lemma entryWinRate_nonneg: "\<not> entryWinRate w l < 0"
  by (simp add: entryWinRate_def Let_def not_less)

lemma miskeyed_usable:
  assumes "p = ''puuid-a'' \<or> p = ''puuid-b''"
      and "playerCache s = miskeyed_cache" and "clock s = 1020"
  shows "usableCached \<lparr>activeWithinMinutes = 30, minWinRate = 0, minLP = None, maxLP = None\<rparr> p s
           = Some miskeyed_record"
  using assms
  by (auto simp: usableCached_def getCachedPlayer_def miskeyed_cache_def miskeyed_record_def
        sample_cached_def cachedPlayerMeetsCriteria_def CACHE_MAX_AGE_def Let_def
        winsOverGames_def js_less_def)

lemma entryStep_miskeyed_hit:
  assumes "of_nat (length (results sr)) < (2::rat)"
      and "e_puuid entry = Some p" and "p = ''puuid-a'' \<or> p = ''puuid-b''"
      and "p \<notin> seenPuuids sr"
      and "playerCache s = miskeyed_cache" and "clock s = 1020"
  shows "entryStep env_ladder_pair 2
           \<lparr>activeWithinMinutes = 30, minWinRate = 0, minLP = None, maxLP = None\<rparr> combo entry (sr, s)
         = Some (Continue, acceptCached env_ladder_pair p miskeyed_record (sr, s))"
proof -
  have ab: "isAborted env_ladder_pair s = (False, s)"
    by (simp add: isAborted_def env_ladder_pair_def)
  have t: "truthy (Some p)" using assms(3) by (auto simp: truthy_def)
  from assms(1) have l: "\<not> 2 \<le> length (results sr)" by simp
  show ?thesis
    unfolding entryStep_def
    by (simp add: l ab t entryWinRate_nonneg assms(2,4) miskeyed_usable[OF assms(3,5,6)] Let_def)
qed

lemma acceptCached_miskeyed:
  "acceptCached env_ladder_pair p miskeyed_record (sr, s) =
     (sr\<lparr>seenPuuids := insert p (seenPuuids sr),
         results := results sr @
           [(player.truncate miskeyed_record)
              \<lparr>p_lastActiveMinutes := p_lastActiveMinutes miskeyed_record +
                                        (clock s - cachedAt miskeyed_record) div 60000,
               p_fromCache := True, p_updatedAt := cachedAt miskeyed_record\<rparr>]\<rparr>, s)"
  by (simp add: acceptCached_def notifyPlayerFound_def env_ladder_pair_def Let_def)

lemma acceptCached_miskeyed_at:
  assumes "clock s = 1020"
  shows "acceptCached env_ladder_pair p miskeyed_record (sr, s) =
     (sr\<lparr>seenPuuids := insert p (seenPuuids sr), results := results sr @ [miskeyed_player]\<rparr>, s)"
  using assms unfolding acceptCached_miskeyed
  by (simp add: miskeyed_player_def miskeyed_record_def sample_cached_def)

lemma forEach_miskeyed_pair:
  assumes c: "playerCache s = miskeyed_cache" "clock s = 1020"
  shows "forEach (entryStep env_ladder_pair 2
            \<lparr>activeWithinMinutes = 30, minWinRate = 0, minLP = None, maxLP = None\<rparr> combo)
           [entryB, entryA] (\<lparr>results = [], seenPuuids = {}, processedMatchIds = {}\<rparr>, s)
         = Some (\<lparr>results = [miskeyed_player, miskeyed_player],
                  seenPuuids = {''puuid-a'', ''puuid-b''}, processedMatchIds = {}\<rparr>, s)"
proof -
  let ?sr0 = "\<lparr>results = [], seenPuuids = {}, processedMatchIds = {}\<rparr>"
  let ?sr1 = "\<lparr>results = [miskeyed_player], seenPuuids = {''puuid-b''}, processedMatchIds = {}\<rparr>"
  have 1: "entryStep env_ladder_pair 2
            \<lparr>activeWithinMinutes = 30, minWinRate = 0, minLP = None, maxLP = None\<rparr> combo
            entryB (?sr0, s) = Some (Continue, ?sr1, s)"
    by (subst entryStep_miskeyed_hit[where p = "''puuid-b''", OF _ _ _ _ c])
       (simp_all add: entryB_def acceptCached_miskeyed_at[OF c(2)])
  have 2: "entryStep env_ladder_pair 2
            \<lparr>activeWithinMinutes = 30, minWinRate = 0, minLP = None, maxLP = None\<rparr> combo
            entryA (?sr1, s) =
           Some (Continue, \<lparr>results = [miskeyed_player, miskeyed_player],
                  seenPuuids = {''puuid-a'', ''puuid-b''}, processedMatchIds = {}\<rparr>, s)"
    by (subst entryStep_miskeyed_hit[where p = "''puuid-a''", OF _ _ _ _ c])
       (simp_all add: entryA_def acceptCached_miskeyed_at[OF c(2)])
  show ?thesis by (simp add: 1 2)
qed

lemma miskeyed_cache_run:
  "map_option (map_sum id (map p_puuid) \<circ> fst)
     (scoutPlayers env_ladder_pair pair_options (loadCache (state0\<lparr>disk := miskeyed_cache\<rparr>)))
   = Some (Inr [''puuid-x'', ''puuid-x''])"
proof -
  let ?E = env_ladder_pair
  let ?co = "\<lparr>activeWithinMinutes = 30, minWinRate = 0, minLP = None, maxLP = None\<rparr>"
  let ?combo = "newCombination ''RANKED_SOLO_5x5'' (toUpperCase ''GOLD'', toUpperCase ''II'')"
  let ?sr0 = "\<lparr>results = [], seenPuuids = {}, processedMatchIds = {}\<rparr>"
  let ?srF = "\<lparr>results = [miskeyed_player, miskeyed_player],
                seenPuuids = {''puuid-a'', ''puuid-b''}, processedMatchIds = {}\<rparr>"
  let ?s = "loadCache (state0\<lparr>disk := miskeyed_cache\<rparr>)"
  have sc: "searchCombinations pair_options = [?combo]"
    by (simp add: searchCombinations_def queuesToSearch_def tierDivisionsToSearch_def
          lpBounds_def truthy_def demo_options_def pair_options_def)
  have co: "cacheOptionsOf pair_options = ?co"
    by (simp add: cacheOptionsOf_def lpBounds_def truthy_def demo_options_def pair_options_def)
  have valid: "\<not> invalidLpRange pair_options" "o_maxPlayers pair_options = 2"
    by (simp_all add: invalidLpRange_def truthy_def demo_options_def pair_options_def)
  have unt: "untriedPagesOf ?combo = [1..<Suc 50]"
    by (simp add: untriedPagesOf_def newCombination_def del: upt_Suc)
  have act: "activeIndices [?combo] = [0]"
    by (simp add: activeIndices_def newCombination_def)
  have g: "getLeagueEntries ?E q t d (Suc 0) s =
             Some (Inr (BEntries [entryA, entryB]),
                 (wait s)\<lparr>clock := clock (wait s) + int (latency ?E (fetches s)),
                          fetches := Suc (fetches s),
                          trace := trace (wait s) @ [Fetch (LeagueExpUrl q t d (Suc 0))]\<rparr>)" for q t d s
    unfolding getLeagueEntries_def
    by (rule apiRequest_success[where code = 200 and payload = "BEntries [entryA, entryB]"])
       (simp_all add: env_ladder_pair_def ok_def)
  have rnd: "mathRandom ?E k = 0" "isSearchAborted ?E = None" "latency ?E k = 20" for k
    by (simp_all add: env_ladder_pair_def)
  have "\<exists>cs S. mainStep ?E 2 ?co [?combo] ?sr0 ?s = Some (Inr (Continue, cs, ?srF), S)"
    by (simp add: mainStep_def isAborted_def act unt upt_1_51_ne upt_1_51_nth0 randomIndex_def
          g rnd state0_def loadCache_def wait_def minDelay_def Let_def pageEntries_def
          shuffleArray_def forEach_miskeyed_pair del: upt_Suc forEach.simps)
  then obtain cs S where
    ms: "mainStep ?E 2 ?co [?combo] ?sr0 ?s = Some (Inr (Continue, cs, ?srF), S)" by blast
  have "mainStep ?E 2 ?co cs ?srF S = Some (Inr (Break, cs, ?srF), S)"
    by (rule mainStep_full) simp
  from mainLoop_break[OF this] mainLoop_continue[OF ms]
  have "mainLoop ?E 2 ?co [?combo] ?sr0 ?s = Some (Inr ?srF, S)" by simp
  then have "scoutPlayers ?E pair_options ?s = Some (Inr [miskeyed_player, miskeyed_player], saveCache S)"
    by (simp add: scoutPlayers_def sc valid co shuffleArray_def)
  then show ?thesis
    by (simp add: miskeyed_player_def miskeyed_record_def)
qed

lemma negative_maxPlayers_run:
  "map_option fst (scoutPlayers demo_env (demo_options\<lparr>o_maxPlayers := -1\<rparr>) state0) = Some (Inr [])"
proof -
  let ?o = "demo_options\<lparr>o_maxPlayers := -1\<rparr>"
  have valid: "\<not> invalidLpRange ?o" "o_maxPlayers ?o = -1"
    by (simp_all add: invalidLpRange_def truthy_def demo_options_def)
  obtain cs s1 where sh: "shuffleArray demo_env (searchCombinations ?o) state0 = (cs, s1)"
    by (cases "shuffleArray demo_env (searchCombinations ?o) state0")
  have "mainStep demo_env (-1) (cacheOptionsOf ?o) cs
          \<lparr>results = [], seenPuuids = {}, processedMatchIds = {}\<rparr> s1
        = Some (Inr (Break, cs, \<lparr>results = [], seenPuuids = {}, processedMatchIds = {}\<rparr>), s1)"
    by (rule mainStep_full) simp
  from mainLoop_break[OF this] show ?thesis
    by (simp add: scoutPlayers_def valid sh)
qed

text \<open>
  Claim C4 as stated holds of every run. A run started from a loaded cache file that
  holds one record under the identifiers of two listed players returns that record's
  player twice; and a run with \<^verbatim>\<open>maxPlayers = -1\<close> returns the empty list, whose length
  0 exceeds \<^verbatim>\<open>maxPlayers\<close>.
\<close>

theorem scoutPlayers_duplicates_from_miskeyed_cache:
  "map_option (map_sum id (map p_puuid) \<circ> fst)
     (scoutPlayers env_ladder_pair pair_options (loadCache (state0\<lparr>disk := miskeyed_cache\<rparr>)))
   = Some (Inr [''puuid-x'', ''puuid-x'']) \<and>
   map_option fst (scoutPlayers demo_env (demo_options\<lparr>o_maxPlayers := -1\<rparr>) state0) = Some (Inr [])"
  using miskeyed_cache_run negative_maxPlayers_run by (rule conjI)

section \<open>Configuration errors\<close>

lemma isDigit_dash: "\<not> isDigit CHR ''-''"
  by (simp add: isDigit_def)

lemma matchLpRange_format:
  "matchLpRange lpRange = Some (a, b) \<longleftrightarrow>
     a \<noteq> [] \<and> b \<noteq> [] \<and> list_all isDigit a \<and> list_all isDigit b \<and> lpRange = a @ ''-'' @ b"
proof
  assume m: "matchLpRange lpRange = Some (a, b)"
  let ?first = "takeWhile isDigit lpRange" and ?rest = "dropWhile isDigit lpRange"
  from m obtain c second where rest: "?rest = c # second"
    by (cases ?rest) (auto simp: matchLpRange_def Let_def)
  from m rest have f: "?first \<noteq> []" "c = CHR ''-''" "second \<noteq> []" "list_all isDigit second"
    "a = ?first" "b = second"
    by (auto simp: matchLpRange_def Let_def split: if_splits)
  have "lpRange = ?first @ ?rest" by simp
  moreover have "list_all isDigit ?first" by (simp add: list_all_iff) (metis set_takeWhileD)
  ultimately show "a \<noteq> [] \<and> b \<noteq> [] \<and> list_all isDigit a \<and> list_all isDigit b \<and>
                   lpRange = a @ ''-'' @ b"
    using f rest by simp
next
  assume r: "a \<noteq> [] \<and> b \<noteq> [] \<and> list_all isDigit a \<and> list_all isDigit b \<and> lpRange = a @ ''-'' @ b"
  then have d: "\<forall>x\<in>set a. isDigit x" by (simp add: list_all_iff)
  have t: "takeWhile isDigit (a @ CHR ''-'' # b) = a"
    using d isDigit_dash by (simp add: takeWhile_tail)
  have dr: "dropWhile isDigit (a @ CHR ''-'' # b) = CHR ''-'' # b"
    using d isDigit_dash by (simp add: dropWhile_append3)
  from r t dr show "matchLpRange lpRange = Some (a, b)"
    by (simp add: matchLpRange_def Let_def)
qed

text \<open>
  Claim C8, as the code has it. For every non-empty \<^verbatim>\<open>lpRange\<close> string that is not of the
  form digits, dash, digits, \<^verbatim>\<open>scoutPlayers\<close> logs the configuration error and returns an
  empty result list: the search does not start (no request, no poll, no change to the
  cache, no save), and the caller receives an ordinary result, not an error. An empty
  \<^verbatim>\<open>lpRange\<close> string is treated as no range at all.
\<close>

theorem scoutPlayers_invalid_lpRange_returns_empty:
  assumes "lpRange \<noteq> []"
      and "\<not> (\<exists>a b. a \<noteq> [] \<and> b \<noteq> [] \<and> list_all isDigit a \<and> list_all isDigit b \<and>
                   lpRange = a @ ''-'' @ b)"
  shows "scoutPlayers env (options\<lparr>o_lpRange := Some lpRange\<rparr>) s =
           Some (Inr [], s\<lparr>trace := trace s @ [ConsoleError ''Invalid lpRange format'']\<rparr>) \<and>
         scoutPlayers env (options\<lparr>o_lpRange := Some []\<rparr>) s =
           scoutPlayers env (options\<lparr>o_lpRange := None\<rparr>) s"
proof -
  have "matchLpRange lpRange = None"
  proof (cases "matchLpRange lpRange")
    case (Some m)
    obtain a b where "m = (a, b)" by (cases m)
    with Some have "matchLpRange lpRange = Some (a, b)" by simp
    then have "a \<noteq> [] \<and> b \<noteq> [] \<and> list_all isDigit a \<and> list_all isDigit b \<and>
               lpRange = a @ ''-'' @ b"
      by (rule matchLpRange_format[THEN iffD1])
    then have "\<exists>a b. a \<noteq> [] \<and> b \<noteq> [] \<and> list_all isDigit a \<and> list_all isDigit b \<and>
               lpRange = a @ ''-'' @ b"
      by (intro exI)
    with assms(2) show ?thesis by (rule notE)
  qed simp
  then have "invalidLpRange (options\<lparr>o_lpRange := Some lpRange\<rparr>)"
    using assms(1) by (simp add: invalidLpRange_def truthy_def)
  then have 1: "scoutPlayers env (options\<lparr>o_lpRange := Some lpRange\<rparr>) s =
           Some (Inr [], s\<lparr>trace := trace s @ [ConsoleError ''Invalid lpRange format'']\<rparr>)"
    by (simp add: scoutPlayers_def)
  have 2: "scoutPlayers env (options\<lparr>o_lpRange := Some []\<rparr>) s =
           scoutPlayers env (options\<lparr>o_lpRange := None\<rparr>) s"
    by (simp add: scoutPlayers_def invalidLpRange_def truthy_def searchCombinations_def
          tierDivisionsToSearch_def lpBounds_def queuesToSearch_def cacheOptionsOf_def)
  from 1 2 show ?thesis ..
qed

lemma gold_is_no_range:
  "\<not> (\<exists>a b. a \<noteq> [] \<and> b \<noteq> [] \<and> list_all isDigit a \<and> list_all isDigit b \<and>
           ''gold'' = a @ ''-'' @ b)"
proof
  assume "\<exists>a b. a \<noteq> [] \<and> b \<noteq> [] \<and> list_all isDigit a \<and> list_all isDigit b \<and>
           ''gold'' = a @ ''-'' @ b"
  then obtain a b where e: "''gold'' = a @ ''-'' @ b" by blast
  have "CHR ''-'' \<in> set (a @ ''-'' @ b)" by simp
  then have "CHR ''-'' \<in> set ''gold''" unfolding e[symmetric] .
  then show False by simp
qed

theorem scoutPlayers_invalid_lpRange_returns_empty_witness:
  "scoutPlayers demo_env (demo_options\<lparr>o_lpRange := Some ''gold''\<rparr>) state0 =
     Some (Inr [], state0\<lparr>trace := trace state0 @ [ConsoleError ''Invalid lpRange format'']\<rparr>)"
  using scoutPlayers_invalid_lpRange_returns_empty[OF _ gold_is_no_range, of demo_env demo_options state0]
  by simp

text \<open>
  Claim C8 as stated has the caller receive a fatal configuration error. With the range
  string \<^verbatim>\<open>gold\<close> the call returns normally, with an empty list.
\<close>

theorem scoutPlayers_invalid_lpRange_is_no_error:
  "map_option fst (scoutPlayers demo_env bad_options state0) = Some (Inr [])"
  by (simp add: scoutPlayers_def invalidLpRange_def truthy_def bad_options_def demo_options_def
        matchLpRange_def isDigit_def)

section \<open>Durable saves\<close>

lemma finite_keys [simp]: "finite (fmdom' (m :: cache))"
  by (simp add: fmdom'_alt_def)

lemma keyCount_cachePlayer:
  "keyCount (cachePlayer player s) =
     (if p_puuid player \<in> fmdom' (playerCache s) then keyCount s else Suc (keyCount s))"
  by (simp add: keyCount_def cachePlayer_def saveCache_def Let_def insert_absorb)

lemma saveCount_cachePlayer:
  "saveCount (cachePlayer player s) =
     saveCount s + (if keyCount (cachePlayer player s) mod 10 = 0 then 1 else 0)"
  by (simp add: keyCount_def saveCount_def cachePlayer_def saveCache_def Let_def)

lemma keys_cachePlayer:
  "fmdom' (playerCache (cachePlayer player s)) = insert (p_puuid player) (fmdom' (playerCache s))"
  by (simp add: cachePlayer_def saveCache_def Let_def)

lemma div10_Suc: "Suc c div 10 = c div 10 + (if Suc c mod 10 = 0 then 1 else 0)"
  by (simp add: div_Suc)

lemma fresh_keys_save_every_tenth:
  assumes "distinct (map p_puuid players)"
      and "set (map p_puuid players) \<inter> fmdom' (playerCache s) = {}"
  shows "saveCount (cachePlayers players s) =
           saveCount s + ((keyCount s + length players) div 10 - keyCount s div 10)"
  using assms
proof (induction players arbitrary: s)
  case Nil
  then show ?case by (simp add: cachePlayers_def)
next
  case (Cons p ps)
  let ?s1 = "cachePlayer p s"
  have new: "p_puuid p \<notin> fmdom' (playerCache s)" using Cons.prems(2) by auto
  have k1: "keyCount ?s1 = Suc (keyCount s)" using new by (simp add: keyCount_cachePlayer)
  have d: "distinct (map p_puuid ps)" using Cons.prems(1) by simp
  have i: "set (map p_puuid ps) \<inter> fmdom' (playerCache ?s1) = {}"
    using Cons.prems by (auto simp: keys_cachePlayer)
  have "cachePlayers (p # ps) s = cachePlayers ps ?s1" by (simp add: cachePlayers_def)
  then have "saveCount (cachePlayers (p # ps) s) =
        saveCount ?s1 + ((keyCount ?s1 + length ps) div 10 - keyCount ?s1 div 10)"
    using Cons.IH[OF d i] by simp
  also have "\<dots> = saveCount s + (if Suc (keyCount s) mod 10 = 0 then 1 else 0) +
        ((Suc (keyCount s) + length ps) div 10 - Suc (keyCount s) div 10)"
    by (simp add: saveCount_cachePlayer k1)
  also have "\<dots> = saveCount s + ((keyCount s + length (p # ps)) div 10 - keyCount s div 10)"
  proof -
    have "Suc (keyCount s) div 10 \<le> (Suc (keyCount s) + length ps) div 10"
      by (rule div_le_mono) simp
    then show ?thesis by (simp add: div10_Suc[of "keyCount s"])
  qed
  finally show ?case .
qed

lemma same_key_never_saves:
  assumes "fmdom' (playerCache s) \<subseteq> {p_puuid player}"
  shows "saveCount (cachePlayers (replicate n player) s) = saveCount s"
  using assms
proof (induction n arbitrary: s)
  case 0
  then show ?case by (simp add: cachePlayers_def)
next
  case (Suc n)
  let ?s1 = "cachePlayer player s"
  have keys: "fmdom' (playerCache ?s1) = {p_puuid player}"
    using Suc.prems by (auto simp: keys_cachePlayer)
  then have k: "keyCount ?s1 = 1" by (simp add: keyCount_def)
  have "cachePlayers (replicate (Suc n) player) s = cachePlayers (replicate n player) ?s1"
    by (simp add: cachePlayers_def)
  then show ?case using Suc.IH[of ?s1] keys by (simp add: saveCount_cachePlayer k)
qed

text \<open>
  Claim C9, as the code has it. \<^verbatim>\<open>cachePlayer\<close> triggers a durable save exactly when the
  number of keys in the cache after the upsert is a multiple of 10. An upsert of a new
  key raises the key count by one, an overwrite leaves it: a run of upserts of new keys
  saves on every tenth key, while an overwrite saves if and only if the key count at
  that moment is a multiple of 10. In addition, every search that returns the results of
  its main loop ends with an unconditional save, after which the durable copy equals the
  cache.
\<close>

theorem cachePlayer_saves_by_key_count:
  "saveCount (cachePlayer player s) =
     saveCount s + (if keyCount (cachePlayer player s) mod 10 = 0 then 1 else 0) \<and>
   keyCount (cachePlayer player s) =
     (if p_puuid player \<in> fmdom' (playerCache s) then keyCount s else Suc (keyCount s)) \<and>
   (distinct (map p_puuid players) \<and> set (map p_puuid players) \<inter> fmdom' (playerCache s) = {} \<longrightarrow>
      saveCount (cachePlayers players s) =
        saveCount s + ((keyCount s + length players) div 10 - keyCount s div 10)) \<and>
   (\<not> invalidLpRange options \<and> scoutPlayers env options s = Some (Inr found, s') \<longrightarrow>
      (\<exists>events. trace s' = events @ [SaveCache]) \<and> disk s' = playerCache s')"
proof (intro conjI impI)
  show "saveCount (cachePlayer player s) =
     saveCount s + (if keyCount (cachePlayer player s) mod 10 = 0 then 1 else 0)"
    by (rule saveCount_cachePlayer)
  show "keyCount (cachePlayer player s) =
     (if p_puuid player \<in> fmdom' (playerCache s) then keyCount s else Suc (keyCount s))"
    by (rule keyCount_cachePlayer)
  show "saveCount (cachePlayers players s) =
        saveCount s + ((keyCount s + length players) div 10 - keyCount s div 10)"
    if "distinct (map p_puuid players) \<and> set (map p_puuid players) \<inter> fmdom' (playerCache s) = {}"
    using that by (intro fresh_keys_save_every_tenth) simp_all
next
  assume a: "\<not> invalidLpRange options \<and> scoutPlayers env options s = Some (Inr found, s')"
  then obtain s2 where s2: "s' = saveCache s2"
    by (auto simp: scoutPlayers_def split: prod.splits option.splits sum.splits)
  show "\<exists>events. trace s' = events @ [SaveCache]" unfolding s2 by (simp add: saveCache_def)
  show "disk s' = playerCache s'" unfolding s2 by (simp add: saveCache_def)
qed

theorem cachePlayer_saves_by_key_count_witness:
  "saveCount (cachePlayer sample_player state0) = 0 \<and>
   keyCount (cachePlayer sample_player state0) = 1 \<and>
   saveCount (cachePlayers [sample_player] state0) = 0 \<and>
   (\<exists>found s'. scoutPlayers demo_env demo_options state0 = Some (Inr found, s') \<and>
      (\<exists>events. trace s' = events @ [SaveCache]) \<and> disk s' = playerCache s')"
proof -
  have k0: "keyCount state0 = 0" "saveCount state0 = 0" "fmdom' (playerCache state0) = {}"
    by (simp_all add: keyCount_def saveCount_def state0_def)
  have v: "\<not> invalidLpRange demo_options"
    by (simp add: invalidLpRange_def truthy_def demo_options_def)
  obtain found s' where
    run: "scoutPlayers demo_env demo_options state0 = Some (Inr found, s')"
    using scoutPlayers_returns[OF demo_env_overloadEnds demo_env_ladderAnswers] by blast
  note t = cachePlayer_saves_by_key_count[of sample_player state0 "[sample_player]"
              demo_options demo_env found s']
  have a: "keyCount (cachePlayer sample_player state0) = 1" using t k0 by simp
  have b: "saveCount (cachePlayer sample_player state0) = 0" using t k0 a by simp
  have c: "saveCount (cachePlayers [sample_player] state0) = 0" using t k0 by simp
  have d: "(\<exists>events. trace s' = events @ [SaveCache]) \<and> disk s' = playerCache s'"
    using t v run by blast
  from a b c d run show ?thesis by blast
qed

text \<open>
  Claim C9 as stated has a save on every tenth upsert, whether it inserts or overwrites.
  Ten upserts of one player into the empty cache trigger no save at all.
\<close>

theorem ten_overwrites_trigger_no_save:
  "saveCount (cachePlayers (replicate 10 sample_player) state0) = 0"
proof -
  have "fmdom' (playerCache state0) \<subseteq> {p_puuid sample_player}" by (simp add: state0_def)
  from same_key_never_saves[OF this, of 10] show ?thesis
    by (simp add: saveCount_def state0_def)
qed

section \<open>Abort\<close>

lemma shuffleFrom_polls: "shuffleFrom env n xs s = (ys, s') \<Longrightarrow> polls s' = polls s"
proof (induction n arbitrary: xs s)
  case 0
  then show ?case by simp
next
  case (Suc n)
  then show ?case by (auto simp: Let_def randomIndex_def split: prod.splits)
qed

text \<open>
  An abort observed at the poll at the top of the main loop ends the search in the
  ordinary way: the results so far are returned and the cache is saved.
\<close>

lemma scoutPlayers_abort_at_loop_poll:
  assumes "isSearchAborted env = Some f" and "f (polls s)" and "\<not> invalidLpRange options"
      and "0 < o_maxPlayers options"
  shows "\<exists>s'. scoutPlayers env options s = Some (Inr [], s') \<and>
               (\<exists>events. trace s' = events @ [SaveCache]) \<and> disk s' = playerCache s'"
proof -
  obtain cs s1 where sh: "shuffleArray env (searchCombinations options) s = (cs, s1)"
    by (cases "shuffleArray env (searchCombinations options) s")
  have p1: "polls s1 = polls s" using sh unfolding shuffleArray_def by (rule shuffleFrom_polls)
  let ?sr0 = "\<lparr>results = [], seenPuuids = {}, processedMatchIds = {}\<rparr>"
  let ?s2 = "s1\<lparr>polls := Suc (polls s1), trace := trace s1 @ [AbortPoll True]\<rparr>"
  have "mainStep env (o_maxPlayers options) (cacheOptionsOf options) cs ?sr0 s1 =
          Some (Inr (Break, cs, ?sr0), ?s2)"
    using assms(1,2,4) p1 by (simp add: mainStep_def isAborted_def)
  from mainLoop_break[OF this] assms(3) sh
  have "scoutPlayers env options s = Some (Inr [], saveCache ?s2)"
    by (simp add: scoutPlayers_def)
  then show ?thesis by (simp add: saveCache_def)
qed

text \<open>
  Claim C2 at the failing input: the first ladder request is answered with HTTP 429 and
  the abort predicate turns true during the cool-down. \<^verbatim>\<open>scoutPlayers\<close> ends with the
  error \<^verbatim>\<open>Search aborted\<close>; the events up to then hold no save of the cache.
\<close>

theorem scoutPlayers_abort_in_cooldown_throws:
  "map_option fst (scoutPlayers env_abort_in_cooldown demo_options state0) = Some (Inl SearchAborted) \<and>
   map_option (trace \<circ> snd) (scoutPlayers env_abort_in_cooldown demo_options state0) =
     Some [AbortPoll False, Fetch (LeagueExpUrl ''RANKED_SOLO_5x5'' ''GOLD'' ''II'' 1),
           RateLimit True 120, AbortPoll True]"
proof -
  let ?E = env_abort_in_cooldown
  have ab: "isSearchAborted ?E = Some (\<lambda>k. 1 \<le> k)" by (simp add: env_abort_in_cooldown_def)
  have g: "getLeagueEntries ?E q t d p s =
             Some (Inl SearchAborted,
                 (wait s)\<lparr>clock := clock (wait s) + int (latency ?E (fetches s)),
                          fetches := Suc (fetches s),
                          polls := Suc (polls s),
                          trace := trace (wait s) @ [Fetch (LeagueExpUrl q t d p)] @
                                   rateLimitEvents ?E True 120 @ [AbortPoll True]\<rparr>)"
    if "fetches s = 0" "polls s = 1" for q t d p s
    unfolding getLeagueEntries_def
    by (rule apiRequest_aborted[OF _ ab]) (simp_all add: that env_abort_in_cooldown_def)
  let ?combo = "newCombination ''RANKED_SOLO_5x5'' (toUpperCase ''GOLD'', toUpperCase ''II'')"
  have sc: "searchCombinations demo_options = [?combo]"
    by (simp add: searchCombinations_def queuesToSearch_def tierDivisionsToSearch_def
          lpBounds_def truthy_def demo_options_def)
  have valid: "\<not> invalidLpRange demo_options" "o_maxPlayers demo_options = 3"
    by (simp_all add: invalidLpRange_def truthy_def demo_options_def)
  have unt: "untriedPagesOf ?combo = [1..<Suc 50]"
    by (simp add: untriedPagesOf_def newCombination_def del: upt_Suc)
  have act: "activeIndices [?combo] = [0]"
    by (simp add: activeIndices_def newCombination_def)
  have names: "c_queue ?combo = ''RANKED_SOLO_5x5''" "c_tier ?combo = ''GOLD''"
    "c_division ?combo = ''II''"
    by (simp_all add: newCombination_def toUpperCase_def upperChar_def)
  have rl: "rateLimitEvents ?E True 120 = [RateLimit True 120]" "mathRandom ?E k = 0" for k
    by (simp_all add: rateLimitEvents_def env_abort_in_cooldown_def)
  have "\<exists>S. mainStep ?E 3 (cacheOptionsOf demo_options) [?combo]
              \<lparr>results = [], seenPuuids = {}, processedMatchIds = {}\<rparr> state0
            = Some (Inl SearchAborted, S) \<and>
            trace S = [AbortPoll False, Fetch (LeagueExpUrl ''RANKED_SOLO_5x5'' ''GOLD'' ''II'' 1),
                       RateLimit True 120, AbortPoll True]"
    by (simp add: mainStep_def isAborted_def ab act unt upt_1_51_ne upt_1_51_nth0 randomIndex_def
          names g rl state0_def wait_def minDelay_def Let_def del: upt_Suc)
  then obtain S where
    ms: "mainStep ?E 3 (cacheOptionsOf demo_options) [?combo]
              \<lparr>results = [], seenPuuids = {}, processedMatchIds = {}\<rparr> state0
            = Some (Inl SearchAborted, S)"
    and tr: "trace S = [AbortPoll False, Fetch (LeagueExpUrl ''RANKED_SOLO_5x5'' ''GOLD'' ''II'' 1),
                       RateLimit True 120, AbortPoll True]"
    by blast
  have "scoutPlayers ?E demo_options state0 = Some (Inl SearchAborted, S)"
    by (simp add: scoutPlayers_def sc valid shuffleArray_def mainLoop_error[OF ms])
  then show ?thesis using tr by simp
qed

end
